theory Spec2Isabelle
  imports Main
begin

section \<open>The git hooks that notify the issue tracker\<close>

text \<open>
  The relay is two shell scripts: \<^verbatim>\<open>post-commit-hook.sh\<close>, which
  \<^verbatim>\<open>setup-git-hooks.sh\<close> installs as the post-commit hook, and \<^verbatim>\<open>git-hook.sh\<close>, which
  sends the action \<^verbatim>\<open>push\<close>. Each reads the current branch, pulls an issue key out
  of it with \<^verbatim>\<open>grep -oE\<close>, posts one request with \<^verbatim>\<open>curl\<close>, prints what happened
  and ends with \<^verbatim>\<open>exit 0\<close>.

  The programs the scripts call (\<^verbatim>\<open>grep\<close>, \<^verbatim>\<open>curl\<close>, \<^verbatim>\<open>tail\<close>, \<^verbatim>\<open>head\<close>, the shell's
  command substitution and \<^verbatim>\<open>test\<close>) are modelled as far as the scripts use them.
\<close>

subsection \<open>Text\<close>

definition NL :: char where
  "NL = CHR 0x0A"

definition NUL :: char where
  "NUL = CHR 0x00"

text \<open>
  Command substitution \<^verbatim>\<open>$(...)\<close> drops the NUL bytes of the output and every trailing
  newline.
\<close>

definition cmd_subst :: "string \<Rightarrow> string" where
  "cmd_subst out = rev (dropWhile (\<lambda>c. c = NL) (rev (filter (\<lambda>c. c \<noteq> NUL) out)))"

text \<open>
  \<^verbatim>\<open>echo "$X" | tail -n1\<close> inside \<^verbatim>\<open>$(...)\<close>: the last line of \<open>X\<close>.
  \<^verbatim>\<open>echo "$X" | head -n -1\<close> inside \<^verbatim>\<open>$(...)\<close>: every line of \<open>X\<close> but the last.
\<close>

definition tail_n1 :: "string \<Rightarrow> string" where
  "tail_n1 x = cmd_subst (rev (takeWhile (\<lambda>c. c \<noteq> NL) (rev x)))"

definition head_n_minus1 :: "string \<Rightarrow> string" where
  "head_n_minus1 x = cmd_subst (rev (dropWhile (\<lambda>c. c \<noteq> NL) (rev x)))"

text \<open>Lines printed by separate commands, as one captured text.\<close>

fun unlines_sh :: "string list \<Rightarrow> string" where
  "unlines_sh [] = []"
| "unlines_sh (l # ls) = l @ [NL] @ unlines_sh ls"

subsection \<open>The extended regular expressions the scripts hand to grep\<close>

text \<open>
  The two patterns are \<^verbatim>\<open>${PROJECT_KEY}-[0-9]+\<close> and \<^verbatim>\<open>[A-Z]+-[0-9]+\<close>: a sequence
  of items, each a single character or a bracket expression, possibly followed by
  \<^verbatim>\<open>+\<close>. A bracket expression is kept as the list of the characters it admits (the
  C locale's reading of a range).
\<close>

datatype atom = Lit char | Bracket "char list"

datatype item = One atom | Plus atom

type_synonym ere = "item list"

fun atom_ok :: "atom \<Rightarrow> char \<Rightarrow> bool" where
  "atom_ok (Lit c) x = (x = c)"
| "atom_ok (Bracket cs) x = (x \<in> set cs)"

definition range_0_9 :: "char list" where
  "range_0_9 = ''0123456789''"

definition range_A_Z :: "char list" where
  "range_A_Z = ''ABCDEFGHIJKLMNOPQRSTUVWXYZ''"

text \<open>The longer of two candidate match lengths.\<close>

fun longer :: "nat option \<Rightarrow> nat option \<Rightarrow> nat option" where
  "longer None b = b"
| "longer (Some m) None = Some m"
| "longer (Some m) (Some n) = Some (max m n)"

text \<open>
  \<open>match_here re s\<close> is the length of the longest match of \<open>re\<close> that starts at
  the head of \<open>s\<close>, if there is one (grep reports the longest of the leftmost matches).
\<close>

fun match_here :: "ere \<Rightarrow> string \<Rightarrow> nat option" where
  "match_here [] s = Some 0"
| "match_here (One a # r) [] = None"
| "match_here (One a # r) (x # xs) =
     (if atom_ok a x then map_option Suc (match_here r xs) else None)"
| "match_here (Plus a # r) [] = None"
| "match_here (Plus a # r) (x # xs) =
     (if atom_ok a x
      then map_option Suc (longer (match_here (Plus a # r) xs) (match_here r xs))
      else None)"

text \<open>
  \<^verbatim>\<open>grep -o\<close> on one line: every non-empty match, left to right, the search going on
  after the end of each match; where nothing (or only the empty string) matches, one
  character further. grep prints each match on a line of its own.
\<close>

function grep_o :: "ere \<Rightarrow> string \<Rightarrow> string list" where
  "grep_o re [] = []"
| "grep_o re (x # xs) =
     (case match_here re (x # xs) of
        Some (Suc n) \<Rightarrow> (x # take n xs) # grep_o re (drop n xs)
      | _ \<Rightarrow> grep_o re xs)"
  by pat_completeness auto
termination
  by (relation "measure (\<lambda>(re, s). length s)") auto

text \<open>
  \<^verbatim>\<open>$(echo "$BRANCH_NAME" | grep -oE PATTERN)\<close>: git prints the branch on one line, so
  grep reads one line; the matches come back one per line, the last newline dropped.
\<close>

definition grep_oE :: "ere \<Rightarrow> string \<Rightarrow> string" where
  "grep_oE re line = cmd_subst (unlines_sh (grep_o re line))"

text \<open>
  The argument \<^verbatim>\<open>"${PROJECT_KEY}-[0-9]+"\<close>. grep reads the text of the project key as part
  of a pattern, and a text that starts with a dash as options. What is modelled of that:
  \<^item> a printable ASCII character that is no operator of an extended regular expression
    stands for itself;
  \<^item> such a character followed by \<^verbatim>\<open>+\<close> stands for one or more of it;
  \<^item> a key that starts with \<^verbatim>\<open>-e\<close> makes the argument the option \<^verbatim>\<open>-e\<close> with the rest of the
    text as its pattern.
  Every other key (another operator, another leading dash, a byte outside printable ASCII)
  is outside the model: what grep prints for it is a parameter of the hook. (The key is
  never empty: an empty \<^verbatim>\<open>SCRUM_PROJECT_KEY\<close> gives way to the default.)
\<close>

definition plain_chars :: "char list" where
  "plain_chars =
     ''ABCDEFGHIJKLMNOPQRSTUVWXYZabcdefghijklmnopqrstuvwxyz0123456789 !#%&,-/:;<=>@_~'' @
     [CHR 0x22, CHR 0x27, CHR 0x60]"

text \<open>The part of the key that grep takes into the pattern.\<close>

definition pattern_part :: "string \<Rightarrow> string" where
  "pattern_part key = (if take 2 key = ''-e'' then drop 2 key else key)"

fun ere_units :: "string \<Rightarrow> bool" where
  "ere_units [] = True"
| "ere_units (c # cs) =
     (c \<in> set plain_chars \<and>
      (case cs of
         [] \<Rightarrow> True
       | d # ds \<Rightarrow> if d = CHR ''+'' then ere_units ds else ere_units cs))"

fun key_items :: "string \<Rightarrow> ere" where
  "key_items [] = []"
| "key_items (c # cs) =
     (case cs of
        [] \<Rightarrow> [One (Lit c)]
      | d # ds \<Rightarrow>
          if d = CHR ''+'' then Plus (Lit c) # key_items ds else One (Lit c) # key_items cs)"

text \<open>The keys whose pattern is modelled, and among them those that grep reads letter by letter.\<close>

definition ere_modelled :: "string \<Rightarrow> bool" where
  "ere_modelled key =
     (key \<noteq> [] \<and> (take 1 key \<noteq> ''-'' \<or> take 2 key = ''-e'') \<and>
      ere_units (pattern_part key))"

definition ere_plain :: "string \<Rightarrow> bool" where
  "ere_plain key =
     (key \<noteq> [] \<and> take 1 key \<noteq> ''-'' \<and> list_all (\<lambda>c. c \<in> set plain_chars) key)"

text \<open>The pattern that grep works with, for a key whose pattern is modelled.\<close>

definition key_pattern :: "string \<Rightarrow> ere" where
  "key_pattern key =
     key_items (pattern_part key) @ [One (Lit (CHR ''-'')), Plus (Bracket range_0_9)]"

text \<open>
  \<^verbatim>\<open>JIRA_KEY=$(echo "$BRANCH_NAME" | grep -oE "${PROJECT_KEY}-[0-9]+")\<close>, where
  \<open>grep_rest argument line\<close> is what grep prints for an argument outside the model
  (grep is taken to end on it, with whatever output or none).
\<close>

definition extract_commit :: "(string \<Rightarrow> string \<Rightarrow> string) \<Rightarrow> string \<Rightarrow> string \<Rightarrow> string" where
  "extract_commit grep_rest key line =
     (if ere_modelled key then grep_oE (key_pattern key) line
      else cmd_subst (grep_rest (key @ ''-[0-9]+'') line))"

text \<open>The pattern \<^verbatim>\<open>'[A-Z]+-[0-9]+'\<close> of \<^verbatim>\<open>git-hook.sh\<close>.\<close>

definition any_key_pattern :: ere where
  "any_key_pattern = [Plus (Bracket range_A_Z), One (Lit (CHR ''-'')), Plus (Bracket range_0_9)]"

subsection \<open>The shell's environment, parameters and tests\<close>

type_synonym env = "string \<rightharpoonup> string"

text \<open>\<^verbatim>\<open>${VAR:-default}\<close>: the default where \<open>VAR\<close> is unset or set to the empty string.\<close>

definition param_default :: "env \<Rightarrow> string \<Rightarrow> string \<Rightarrow> string" where
  "param_default e var dflt =
     (case e var of None \<Rightarrow> dflt | Some v \<Rightarrow> if v = [] then dflt else v)"

definition digit_of :: "char \<Rightarrow> nat option" where
  "digit_of = map_of [(CHR ''0'', 0), (CHR ''1'', 1), (CHR ''2'', 2), (CHR ''3'', 3),
     (CHR ''4'', 4), (CHR ''5'', 5), (CHR ''6'', 6), (CHR ''7'', 7), (CHR ''8'', 8),
     (CHR ''9'', 9)]"

fun parse_digits :: "nat \<Rightarrow> string \<Rightarrow> nat option" where
  "parse_digits acc [] = Some acc"
| "parse_digits acc (c # cs) =
     (case digit_of c of None \<Rightarrow> None | Some d \<Rightarrow> parse_digits (10 * acc + d) cs)"

text \<open>
  \<^verbatim>\<open>[ "$X" -eq n ]\<close> on a text of decimal digits. On any other text \<^verbatim>\<open>test\<close> reports
  "integer expression expected" with status 2, which an \<^verbatim>\<open>if\<close> takes as false. (The
  only text tested is what curl wrote for \<^verbatim>\<open>%{http_code}\<close>, which has no sign and no
  blanks.)
\<close>

definition test_eq :: "string \<Rightarrow> nat \<Rightarrow> bool" where
  "test_eq x n = (case (if x = [] then None else parse_digits 0 x) of
                    None \<Rightarrow> False | Some k \<Rightarrow> k = n)"

subsection \<open>The repository as the hook sees it\<close>

record repo =
  branch :: string            \<comment> \<open>what \<^verbatim>\<open>git rev-parse --abbrev-ref HEAD\<close> prints, one line\<close>
  merge_head :: bool          \<comment> \<open>\<^verbatim>\<open>[ -f ".git/MERGE_HEAD" ]\<close>\<close>
  rebase_applying :: bool     \<comment> \<open>\<^verbatim>\<open>[ -f ".git/rebase-apply/applying" ]\<close>\<close>

subsection \<open>curl\<close>

record curl_args =
  silent :: bool                   \<comment> \<open>\<^verbatim>\<open>-s\<close>\<close>
  write_http_code :: bool          \<comment> \<open>\<^verbatim>\<open>-w "\n%{http_code}"\<close>\<close>
  request :: string                \<comment> \<open>\<^verbatim>\<open>-X\<close>\<close>
  url :: string
  headers :: "string list"         \<comment> \<open>\<^verbatim>\<open>-H\<close>\<close>
  data :: string                   \<comment> \<open>\<^verbatim>\<open>-d\<close>\<close>
  connect_timeout :: "nat option"  \<comment> \<open>\<^verbatim>\<open>--connect-timeout\<close>, seconds\<close>
  max_time :: "nat option"         \<comment> \<open>\<^verbatim>\<open>--max-time\<close>, seconds\<close>

datatype transport_error = Couldnt_Resolve_Host | Couldnt_Connect | Got_Nothing | Recv_Error

fun curl_exit_of :: "transport_error \<Rightarrow> nat" where
  "curl_exit_of Couldnt_Resolve_Host = 6"
| "curl_exit_of Couldnt_Connect = 7"
| "curl_exit_of Got_Nothing = 52"
| "curl_exit_of Recv_Error = 56"

text \<open>
  What the network does with a request: a whole response with a status and a body after
  some seconds; a transport failure after some seconds; nothing at all, ever; or a status
  and the start of a body, and then nothing more for as long as curl waits.
\<close>

datatype server =
  Answers nat nat string | Fails nat transport_error | Silent | Stalls nat string

text \<open>The transfer comes to an end by itself.\<close>

fun ends :: "server \<Rightarrow> bool" where
  "ends (Answers d code b) = True"
| "ends (Fails d err) = True"
| "ends Silent = False"
| "ends (Stalls code b) = False"

record curl_result =
  curl_exit :: nat      \<comment> \<open>curl's exit status, \<^verbatim>\<open>$?\<close>\<close>
  http_code :: nat      \<comment> \<open>the response's status, 0 when no response came\<close>
  body :: string        \<comment> \<open>the response body written to standard output\<close>
  seconds :: nat        \<comment> \<open>how long curl ran\<close>

text \<open>
  Exit status 28: the operation timed out. curl has by then written the part of the body
  that arrived, and \<^verbatim>\<open>%{http_code}\<close> is the status that arrived (0 when none did).
\<close>

definition timed_out :: "nat \<Rightarrow> nat \<Rightarrow> string \<Rightarrow> curl_result" where
  "timed_out t code b = \<lparr>curl_exit = 28, http_code = code, body = b, seconds = t\<rparr>"

text \<open>
  \<^verbatim>\<open>--max-time\<close>: a run that would take the limit or longer is cut at the limit and ends
  as a timeout; of an answer or a failure that would have come later nothing has arrived
  then. Without the option nothing is cut.
\<close>

definition cut_at :: "nat option \<Rightarrow> curl_result \<Rightarrow> curl_result" where
  "cut_at limit r =
     (case limit of None \<Rightarrow> r | Some t \<Rightarrow> if seconds r < t then r else timed_out t 0 [])"

text \<open>
  One run of curl. Without \<^verbatim>\<open>--max-time\<close> curl waits for the server as long as it takes,
  and \<open>None\<close> stands for a run that never returns. curl exits with 0 on any response,
  whatever its status (the scripts do not pass \<^verbatim>\<open>--fail\<close>).
\<close>

fun run_curl :: "curl_args \<Rightarrow> server \<Rightarrow> curl_result option" where
  "run_curl a (Answers d code b) =
     Some (cut_at (max_time a) \<lparr>curl_exit = 0, http_code = code, body = b, seconds = d\<rparr>)"
| "run_curl a (Fails d err) =
     Some (cut_at (max_time a)
             \<lparr>curl_exit = curl_exit_of err, http_code = 0, body = [], seconds = d\<rparr>)"
| "run_curl a Silent = map_option (\<lambda>t. timed_out t 0 []) (max_time a)"
| "run_curl a (Stalls code b) = map_option (\<lambda>t. timed_out t code b) (max_time a)"

text \<open>\<^verbatim>\<open>%{http_code}\<close>: the status in decimal, at least three digits (\<^verbatim>\<open>000\<close> for none).\<close>

definition digit_char :: "nat \<Rightarrow> char" where
  "digit_char d = range_0_9 ! (d mod 10)"

fun show_nat :: "nat \<Rightarrow> string" where
  "show_nat n = (if n < 10 then [digit_char n] else show_nat (n div 10) @ [digit_char (n mod 10)])"

declare show_nat.simps [simp del]

definition http_code_text :: "nat \<Rightarrow> string" where
  "http_code_text n = replicate (3 - length (show_nat n)) (CHR ''0'') @ show_nat n"

definition curl_stdout :: "curl_args \<Rightarrow> curl_result \<Rightarrow> string" where
  "curl_stdout a r =
     body r @ (if write_http_code a then [NL] @ http_code_text (http_code r) else [])"

subsection \<open>What a run of a hook does\<close>

record outcome =
  exit_status :: nat
  stdout :: "string list"          \<comment> \<open>the text of each \<^verbatim>\<open>echo\<close>, in order\<close>
  requests :: "curl_args list"     \<comment> \<open>the curl commands run, in order\<close>
  waited :: nat                    \<comment> \<open>seconds spent in curl\<close>

definition DQ :: char where
  "DQ = CHR 0x22"

definition SQ :: char where
  "SQ = CHR 0x27"

definition dq :: "string \<Rightarrow> string" where
  "dq s = [DQ] @ s @ [DQ]"

text \<open>\<^verbatim>\<open>"{\"branch_name\": \"${BRANCH_NAME}\", \"git_action\": \"...\"}"\<close>\<close>

definition payload :: "string \<Rightarrow> string \<Rightarrow> string" where
  "payload branch_name git_action =
     ''{'' @ dq ''branch_name'' @ '': '' @ dq branch_name @ '', '' @
     dq ''git_action'' @ '': '' @ dq git_action @ ''}''"

text \<open>
  What the receiver reads in such a body: a JSON object of two members whose values are
  strings. A string ends at the first quotation mark that no backslash escapes. (The
  escape \<^verbatim>\<open>\u\<close> is not read; git lets neither a backslash nor a control character into a
  branch name.)
\<close>

definition BS :: char where
  "BS = CHR 0x5C"

definition unescape :: "char \<Rightarrow> char option" where
  "unescape = map_of [(DQ, DQ), (BS, BS), (CHR ''/'', CHR ''/''), (CHR ''b'', CHR 0x08),
     (CHR ''f'', CHR 0x0C), (CHR ''n'', CHR 0x0A), (CHR ''r'', CHR 0x0D), (CHR ''t'', CHR 0x09)]"

fun read_chars :: "string \<Rightarrow> (string \<times> string) option" where
  "read_chars [] = None"
| "read_chars (c # cs) =
     (if c = DQ then Some ([], cs)
      else if c = BS then
        (case cs of
           [] \<Rightarrow> None
         | e # cs' \<Rightarrow>
             (case unescape e of
                None \<Rightarrow> None
              | Some x \<Rightarrow> map_option (\<lambda>(v, r). (x # v, r)) (read_chars cs')))
      else map_option (\<lambda>(v, r). (c # v, r)) (read_chars cs))"

definition skip_ws :: "string \<Rightarrow> string" where
  "skip_ws = dropWhile (\<lambda>c. c \<in> set [CHR '' '', CHR 0x09, CHR 0x0A, CHR 0x0D])"

definition read_string :: "string \<Rightarrow> (string \<times> string) option" where
  "read_string s =
     (case skip_ws s of [] \<Rightarrow> None | c # cs \<Rightarrow> if c = DQ then read_chars cs else None)"

definition expect :: "char \<Rightarrow> string \<Rightarrow> string option" where
  "expect x s = (case skip_ws s of [] \<Rightarrow> None | c # cs \<Rightarrow> if c = x then Some cs else None)"

definition read_two_fields :: "string \<Rightarrow> ((string \<times> string) \<times> (string \<times> string)) option" where
  "read_two_fields s =
     Option.bind (expect (CHR ''{'') s) (\<lambda>s.
     Option.bind (read_string s) (\<lambda>(k1, s).
     Option.bind (expect (CHR '':'') s) (\<lambda>s.
     Option.bind (read_string s) (\<lambda>(v1, s).
     Option.bind (expect (CHR '','') s) (\<lambda>s.
     Option.bind (read_string s) (\<lambda>(k2, s).
     Option.bind (expect (CHR '':'') s) (\<lambda>s.
     Option.bind (read_string s) (\<lambda>(v2, s).
     Option.bind (expect (CHR ''}'') s) (\<lambda>s.
     if skip_ws s = [] then Some ((k1, v1), (k2, v2)) else None)))))))))"

text \<open>The marks of the two messages of the post-commit hook, in UTF-8.\<close>

definition check_mark :: string where
  "check_mark = [CHR 0xE2, CHR 0x9C, CHR 0x93]"

definition ballot_x :: string where
  "ballot_x = [CHR 0xE2, CHR 0x9C, CHR 0x97]"

subsection \<open>post-commit-hook.sh\<close>

text \<open>
  \<^verbatim>\<open>API_BASE_URL="${SCRUM_API_URL:-http://localhost:8000/api/v1}"\<close> and
  \<^verbatim>\<open>PROJECT_KEY="${SCRUM_PROJECT_KEY:-SCRUM}"\<close>
\<close>

definition API_BASE_URL :: "env \<Rightarrow> string" where
  "API_BASE_URL e = param_default e ''SCRUM_API_URL'' ''http://localhost:8000/api/v1''"

definition PROJECT_KEY :: "env \<Rightarrow> string" where
  "PROJECT_KEY e = param_default e ''SCRUM_PROJECT_KEY'' ''SCRUM''"

definition post_commit_args :: "string \<Rightarrow> string \<Rightarrow> curl_args" where
  "post_commit_args base BRANCH_NAME =
     \<lparr>silent = True, write_http_code = True, request = ''POST'',
      url = base @ ''/git-hooks/update-from-branch'',
      headers = [''Content-Type: application/json''],
      data = payload BRANCH_NAME ''commit'',
      connect_timeout = Some 5, max_time = Some 10\<rparr>"

text \<open>
  The hook, given what grep prints for an argument outside the model (\<open>grep_rest\<close>), the
  environment, the repository and the network.
\<close>

definition post_commit_hook ::
  "(string \<Rightarrow> string \<Rightarrow> string) \<Rightarrow> env \<Rightarrow> repo \<Rightarrow> (curl_args \<Rightarrow> server) \<Rightarrow> outcome option" where
  "post_commit_hook grep_rest e g net =
     (let BRANCH_NAME = branch g in
      if BRANCH_NAME = ''HEAD'' \<or> merge_head g \<or> rebase_applying g
      then Some \<lparr>exit_status = 0, stdout = [], requests = [], waited = 0\<rparr>
      else
        let JIRA_KEY = extract_commit grep_rest (PROJECT_KEY e) BRANCH_NAME in
        if JIRA_KEY = []
        then Some \<lparr>exit_status = 0, stdout = [], requests = [], waited = 0\<rparr>
        else
          let line1 = ''Git Hook: Updating Jira card '' @ JIRA_KEY @ '' for branch '' @
                      [SQ] @ BRANCH_NAME @ [SQ];
              args = post_commit_args (API_BASE_URL e) BRANCH_NAME
          in
          case run_curl args (net args) of
            None \<Rightarrow> None
          | Some r \<Rightarrow>
              let RESPONSE = cmd_subst (curl_stdout args r);
                  HTTP_CODE = tail_n1 RESPONSE;
                  RESPONSE_BODY = head_n_minus1 RESPONSE
              in
              Some \<lparr>exit_status = 0,
                    stdout = line1 #
                      (if test_eq HTTP_CODE 200
                       then [check_mark @ '' Successfully updated Jira card '' @ JIRA_KEY]
                       else [ballot_x @ '' Failed to update Jira card '' @ JIRA_KEY @
                               '' (HTTP '' @ HTTP_CODE @ '')'',
                             ''Response: '' @ RESPONSE_BODY]),
                    requests = [args], waited = seconds r\<rparr>)"

subsection \<open>git-hook.sh\<close>

text \<open>
  The colours are printed with \<^verbatim>\<open>echo -e\<close>, which turns \<^verbatim>\<open>\033\<close> into the escape
  character. A branch name holds no backslash (git refuses it), so nothing else in the
  printed text is rewritten.
\<close>

definition ESC :: char where
  "ESC = CHR 0x1B"

definition RED :: string where
  "RED = [ESC] @ ''[0;31m''"

definition GREEN :: string where
  "GREEN = [ESC] @ ''[0;32m''"

definition YELLOW :: string where
  "YELLOW = [ESC] @ ''[1;33m''"

definition NC :: string where
  "NC = [ESC] @ ''[0m''"

definition git_hook_API_BASE_URL :: string where
  "git_hook_API_BASE_URL = ''http://localhost:8000/api/v1''"

definition GIT_ACTION :: string where
  "GIT_ACTION = ''push''"

definition git_hook_args :: "string \<Rightarrow> curl_args" where
  "git_hook_args BRANCH_NAME =
     \<lparr>silent = True, write_http_code = False, request = ''POST'',
      url = git_hook_API_BASE_URL @ ''/git-hooks/update-from-branch'',
      headers = [''Content-Type: application/json''],
      data = payload BRANCH_NAME GIT_ACTION,
      connect_timeout = None, max_time = None\<rparr>"

definition git_hook :: "repo \<Rightarrow> (curl_args \<Rightarrow> server) \<Rightarrow> outcome option" where
  "git_hook g net =
     (let BRANCH_NAME = branch g;
          line1 = YELLOW @ ''Git Hook: Updating Jira card for branch '' @
                  [SQ] @ BRANCH_NAME @ [SQ] @ NC;
          JIRA_KEY = grep_oE any_key_pattern BRANCH_NAME
      in
      if JIRA_KEY = []
      then Some \<lparr>exit_status = 0,
                 stdout = [line1,
                   YELLOW @ ''No Jira key found in branch name '' @ [SQ] @ BRANCH_NAME @ [SQ] @ NC,
                   ''Branch name should contain a Jira key like SCRUM-25'',
                   ''Examples: feature/SCRUM-25, bugfix/SCRUM-123, SCRUM-456''],
                 requests = [], waited = 0\<rparr>
      else
        let line2 = YELLOW @ ''Found Jira key: '' @ JIRA_KEY @ NC;
            args = git_hook_args BRANCH_NAME
        in
        case run_curl args (net args) of
          None \<Rightarrow> None
        | Some r \<Rightarrow>
            let RESPONSE = cmd_subst (curl_stdout args r) in
            Some \<lparr>exit_status = 0,
                  stdout = [line1, line2] @
                    (if curl_exit r = 0
                     then [GREEN @ ''Successfully updated Jira card '' @ JIRA_KEY @ NC,
                           ''Response: '' @ RESPONSE]
                     else [RED @ ''Failed to update Jira card '' @ JIRA_KEY @ NC,
                           ''Make sure the backend server is running on '' @
                             git_hook_API_BASE_URL]),
                  requests = [args], waited = seconds r\<rparr>)"

subsection \<open>Issue keys in a branch name, said without a matcher\<close>

text \<open>
  The words the properties below are stated in. A key with prefix \<open>p\<close> is \<open>p\<close>, a
  dash and one or more digits; a key with any prefix is one or more uppercase letters, a
  dash and one or more digits.
\<close>

definition digits :: "string \<Rightarrow> bool" where
  "digits ds = (ds \<noteq> [] \<and> list_all (\<lambda>c. c \<in> set range_0_9) ds)"

definition uppers :: "string \<Rightarrow> bool" where
  "uppers us = (us \<noteq> [] \<and> list_all (\<lambda>c. c \<in> set range_A_Z) us)"

definition key_token :: "string \<Rightarrow> string \<Rightarrow> bool" where
  "key_token p k = (k = p @ ''-'' @ drop (Suc (length p)) k \<and> digits (drop (Suc (length p)) k))"

definition any_key_token :: "string \<Rightarrow> bool" where
  "any_key_token k =
     (let us = takeWhile (\<lambda>c. c \<noteq> CHR ''-'') k
      in uppers us \<and> key_token us k)"

text \<open>A token starts at position \<open>i\<close> of \<open>s\<close>.\<close>

definition token_at :: "(string \<Rightarrow> bool) \<Rightarrow> string \<Rightarrow> nat \<Rightarrow> bool" where
  "token_at tok s i = (\<exists>n\<in>{..<length s - i}. tok (take (Suc n) (drop i s)))"

text \<open>Some piece of \<open>s\<close> is a token.\<close>

definition holds_token :: "(string \<Rightarrow> bool) \<Rightarrow> string \<Rightarrow> bool" where
  "holds_token tok s = (\<exists>i\<in>{..<length s}. token_at tok s i)"

text \<open>
  In \<open>pre @ k @ post\<close> the piece \<open>k\<close> is the leftmost token, and the longest of the
  tokens that start where it starts.
\<close>

definition leftmost_longest :: "(string \<Rightarrow> bool) \<Rightarrow> string \<Rightarrow> string \<Rightarrow> string \<Rightarrow> bool" where
  "leftmost_longest tok pre k post =
     (k \<noteq> [] \<and> tok k \<and>
      (\<forall>i\<in>{..<length pre}. \<not> token_at tok (pre @ k @ post) i) \<and>
      (\<forall>m\<in>{..<length post}. \<not> tok (k @ take (Suc m) post)))"

text \<open>The strings a pattern matches as a whole: the meaning of the pattern.\<close>

fun accepts :: "ere \<Rightarrow> string \<Rightarrow> bool" where
  "accepts [] k = (k = [])"
| "accepts (One a # r) [] = False"
| "accepts (One a # r) (x # k) = (atom_ok a x \<and> accepts r k)"
| "accepts (Plus a # r) [] = False"
| "accepts (Plus a # r) (x # k) = (atom_ok a x \<and> (accepts (Plus a # r) k \<or> accepts r k))"

section \<open>The matcher finds the leftmost, longest tokens\<close>

subsection \<open>One match\<close>

lemma longer_Some_cases: "longer a b = Some m \<Longrightarrow> a = Some m \<or> b = Some m"
  by (cases a; cases b) (auto simp: max_def split: if_splits)

lemma longer_ge_left: "a = Some n \<Longrightarrow> m \<le> n \<Longrightarrow> \<exists>n'. longer a b = Some n' \<and> m \<le> n'"
  by (cases b) auto

lemma longer_ge_right: "b = Some n \<Longrightarrow> m \<le> n \<Longrightarrow> \<exists>n'. longer a b = Some n' \<and> m \<le> n'"
  by (cases a) auto

lemma match_here_sound:
  "match_here re s = Some n \<Longrightarrow> n \<le> length s \<and> accepts re (take n s)"
proof (induction re s arbitrary: n rule: match_here.induct)
  case (5 a r x xs)
  from "5.prems" have ok: "atom_ok a x"
    by (simp split: if_splits)
  with "5.prems" obtain m where m: "longer (match_here (Plus a # r) xs) (match_here r xs) = Some m"
    and n: "n = Suc m"
    by auto
  from longer_Some_cases [OF m] show ?case
  proof
    assume "match_here (Plus a # r) xs = Some m"
    with "5.IH"(1) [OF ok] n ok show ?thesis by simp
  next
    assume "match_here r xs = Some m"
    with "5.IH"(2) [OF ok] n ok show ?thesis by simp
  qed
qed (auto split: if_splits)

lemma match_here_complete:
  "accepts re (take m s) \<Longrightarrow> m \<le> length s \<Longrightarrow> \<exists>n. match_here re s = Some n \<and> m \<le> n"
proof (induction re s arbitrary: m rule: match_here.induct)
  case (1 s)
  then show ?case by auto
next
  case (2 a r)
  then show ?case by simp
next
  case (3 a r x xs)
  from "3.prems" obtain m' where m': "m = Suc m'"
    by (cases m) auto
  with "3.prems" have ok: "atom_ok a x" and "accepts r (take m' xs)" and "m' \<le> length xs"
    by auto
  from "3.IH" [OF ok this(2,3)] obtain n where "match_here r xs = Some n" "m' \<le> n"
    by blast
  with ok m' show ?case by simp
next
  case (4 a r)
  then show ?case by simp
next
  case (5 a r x xs)
  from "5.prems" obtain m' where m': "m = Suc m'"
    by (cases m) auto
  with "5.prems" have ok: "atom_ok a x" and le: "m' \<le> length xs"
    and alt: "accepts (Plus a # r) (take m' xs) \<or> accepts r (take m' xs)"
    by auto
  from alt have "\<exists>n'. longer (match_here (Plus a # r) xs) (match_here r xs) = Some n' \<and> m' \<le> n'"
  proof
    assume "accepts (Plus a # r) (take m' xs)"
    from "5.IH"(1) [OF ok this le] show ?thesis
      by (auto intro: longer_ge_left)
  next
    assume "accepts r (take m' xs)"
    from "5.IH"(2) [OF ok this le] show ?thesis
      by (auto intro: longer_ge_right)
  qed
  with ok m' show ?case by auto
qed

lemma token_at_accepts:
  "token_at (accepts re) s i \<longleftrightarrow> (\<exists>k. match_here re (drop i s) = Some (Suc k))"
proof
  assume "token_at (accepts re) s i"
  then obtain n where n: "n < length s - i" and acc: "accepts re (take (Suc n) (drop i s))"
    by (auto simp: token_at_def)
  from n have "Suc n \<le> length (drop i s)" by simp
  from match_here_complete [OF acc this] obtain n' where
    "match_here re (drop i s) = Some n'" "Suc n \<le> n'" by blast
  then show "\<exists>k. match_here re (drop i s) = Some (Suc k)"
    by (cases n') auto
next
  assume "\<exists>k. match_here re (drop i s) = Some (Suc k)"
  then obtain k where k: "match_here re (drop i s) = Some (Suc k)" ..
  from match_here_sound [OF k] show "token_at (accepts re) s i"
    by (auto simp: token_at_def intro!: bexI [of _ k])
qed

lemma token_at_Cons_Suc: "token_at tok (x # xs) (Suc i) = token_at tok xs i"
  by (simp add: token_at_def)

lemma holds_token_Cons:
  "holds_token tok (x # xs) \<longleftrightarrow> token_at tok (x # xs) 0 \<or> holds_token tok xs"
proof -
  have "(\<exists>i<Suc (length xs). token_at tok (x # xs) i) \<longleftrightarrow>
        token_at tok (x # xs) 0 \<or> (\<exists>i<length xs. token_at tok (x # xs) (Suc i))"
    by (metis less_Suc_eq_0_disj)
  then show ?thesis
    by (simp add: holds_token_def Bex_def token_at_Cons_Suc)
qed

lemma holds_token_Nil: "\<not> holds_token tok []"
  by (simp add: holds_token_def)

lemma grep_o_Cons_match:
  "match_here re (x # xs) = Some (Suc n) \<Longrightarrow>
   grep_o re (x # xs) = (x # take n xs) # grep_o re (drop n xs)"
  by simp

lemma grep_o_Cons_skip:
  "\<not> token_at (accepts re) (x # xs) 0 \<Longrightarrow> grep_o re (x # xs) = grep_o re xs"
  by (auto simp: token_at_accepts split: option.splits nat.splits)

lemma grep_o_empty_iff: "grep_o re s = [] \<longleftrightarrow> \<not> holds_token (accepts re) s"
proof (induction s)
  case Nil
  show ?case by (simp add: holds_token_Nil)
next
  case (Cons x xs)
  show ?case
  proof (cases "token_at (accepts re) (x # xs) 0")
    case True
    then obtain k where "match_here re (x # xs) = Some (Suc k)"
      by (auto simp: token_at_accepts)
    with True show ?thesis
      by (simp add: holds_token_Cons)
  next
    case False
    with Cons show ?thesis
      by (simp add: grep_o_Cons_skip holds_token_Cons del: grep_o.simps)
  qed
qed

lemma grep_o_accepts: "m \<in> set (grep_o re s) \<Longrightarrow> accepts re m \<and> m \<noteq> []"
proof (induction re s rule: grep_o.induct)
  case (1 re)
  then show ?case by simp
next
  case (2 re x xs)
  show ?case
  proof (cases "match_here re (x # xs)")
    case None
    with 2 show ?thesis by simp
  next
    case (Some l)
    show ?thesis
    proof (cases l)
      case 0
      with Some 2 show ?thesis by simp
    next
      case (Suc n)
      from match_here_sound [of re "x # xs" "Suc n"] Some Suc
      have "accepts re (x # take n xs)" by simp
      with 2 Some Suc show ?thesis by auto
    qed
  qed
qed

lemma leftmost_longest_Cons:
  "leftmost_longest tok (y # pre) k post \<longleftrightarrow>
   \<not> token_at tok (y # pre @ k @ post) 0 \<and> leftmost_longest tok pre k post"
proof -
  have "(\<forall>i<Suc (length pre). \<not> token_at tok (y # pre @ k @ post) i) \<longleftrightarrow>
        \<not> token_at tok (y # pre @ k @ post) 0 \<and>
        (\<forall>i<length pre. \<not> token_at tok (y # pre @ k @ post) (Suc i))"
    by (metis less_Suc_eq_0_disj)
  then show ?thesis
    by (auto simp: leftmost_longest_def Ball_def token_at_Cons_Suc)
qed

lemma grep_o_longest_here:
  assumes "k \<noteq> []" and "accepts re k"
    and "\<forall>m<length post. \<not> accepts re (k @ take (Suc m) post)"
  shows "grep_o re (k @ post) = k # grep_o re post"
proof -
  from \<open>k \<noteq> []\<close> obtain x k' where k: "k = x # k'"
    by (cases k) auto
  have "accepts re (take (length k) (k @ post))"
    using \<open>accepts re k\<close> by simp
  from match_here_complete [OF this] obtain n where
    n: "match_here re (k @ post) = Some n" and le: "length k \<le> n"
    by auto
  from match_here_sound [OF n] have n_le: "n \<le> length (k @ post)"
    and acc: "accepts re (take n (k @ post))"
    by auto
  have "n = length k"
  proof (rule ccontr)
    assume "n \<noteq> length k"
    with le obtain m where m: "n = length k + Suc m"
      by (metis add_Suc_right le_neq_implies_less less_iff_Suc_add)
    with n_le have "m < length post" by simp
    moreover from acc m have "accepts re (k @ take (Suc m) post)" by simp
    ultimately show False using assms(3) by blast
  qed
  with n k show ?thesis by simp
qed

lemma grep_o_leftmost_longest:
  "leftmost_longest (accepts re) pre k post \<Longrightarrow> grep_o re (pre @ k @ post) = k # grep_o re post"
proof (induction pre)
  case Nil
  then have "grep_o re (k @ post) = k # grep_o re post"
    by (intro grep_o_longest_here) (auto simp: leftmost_longest_def)
  then show ?case by simp
next
  case (Cons y pre)
  then show ?case
    by (simp add: leftmost_longest_Cons grep_o_Cons_skip del: grep_o.simps)
qed

subsection \<open>The two patterns\<close>

lemma accepts_literals:
  "accepts (map (\<lambda>c. One (Lit c)) p @ r) k \<longleftrightarrow> (\<exists>k'. k = p @ k' \<and> accepts r k')"
proof (induction p arbitrary: k)
  case Nil
  show ?case by simp
next
  case (Cons c p)
  show ?case
    by (cases k) (auto simp: Cons)
qed

lemma accepts_plus_last:
  "accepts [Plus (Bracket cs)] ds \<longleftrightarrow> ds \<noteq> [] \<and> list_all (\<lambda>c. c \<in> set cs) ds"
proof (induction ds)
  case Nil
  show ?case by simp
next
  case (Cons d ds)
  show ?case
    by (cases ds) (use Cons in auto)
qed

lemma accepts_plus:
  "accepts (Plus (Bracket cs) # r) k \<longleftrightarrow>
   (\<exists>us k'. k = us @ k' \<and> us \<noteq> [] \<and> list_all (\<lambda>c. c \<in> set cs) us \<and> accepts r k')"
proof (induction k)
  case Nil
  show ?case by simp
next
  case (Cons x k)
  show ?case
  proof
    assume "accepts (Plus (Bracket cs) # r) (x # k)"
    then have x: "x \<in> set cs" and alt: "accepts (Plus (Bracket cs) # r) k \<or> accepts r k"
      by auto
    from alt show "\<exists>us k'. x # k = us @ k' \<and> us \<noteq> [] \<and> list_all (\<lambda>c. c \<in> set cs) us \<and> accepts r k'"
    proof
      assume "accepts (Plus (Bracket cs) # r) k"
      with Cons obtain us k' where "k = us @ k'" "us \<noteq> []" "list_all (\<lambda>c. c \<in> set cs) us" "accepts r k'"
        by blast
      with x show ?thesis
        by (intro exI [of _ "x # us"] exI [of _ k']) simp
    next
      assume "accepts r k"
      with x show ?thesis
        by (intro exI [of _ "[x]"] exI [of _ k]) simp
    qed
  next
    assume "\<exists>us k'. x # k = us @ k' \<and> us \<noteq> [] \<and> list_all (\<lambda>c. c \<in> set cs) us \<and> accepts r k'"
    then obtain us k' where eq: "x # k = us @ k'" and ne: "us \<noteq> []"
      and all: "list_all (\<lambda>c. c \<in> set cs) us" and acc: "accepts r k'"
      by blast
    from ne obtain u us' where us: "us = u # us'"
      by (cases us) auto
    with eq all have x: "x \<in> set cs" and k: "k = us' @ k'" and all': "list_all (\<lambda>c. c \<in> set cs) us'"
      by auto
    show "accepts (Plus (Bracket cs) # r) (x # k)"
    proof (cases "us' = []")
      case True
      with k acc x show ?thesis by simp
    next
      case False
      with k all' acc Cons have "accepts (Plus (Bracket cs) # r) k" by blast
      with x show ?thesis by simp
    qed
  qed
qed

lemma key_token_iff: "key_token p k \<longleftrightarrow> (\<exists>ds. digits ds \<and> k = p @ ''-'' @ ds)"
proof
  assume "key_token p k"
  then show "\<exists>ds. digits ds \<and> k = p @ ''-'' @ ds"
    unfolding key_token_def by blast
next
  assume "\<exists>ds. digits ds \<and> k = p @ ''-'' @ ds"
  then show "key_token p k"
    by (auto simp: key_token_def)
qed

lemma accepts_dash_digits:
  "accepts [One (Lit (CHR ''-'')), Plus (Bracket range_0_9)] k \<longleftrightarrow> (\<exists>ds. digits ds \<and> k = ''-'' @ ds)"
  by (cases k) (auto simp: accepts_plus_last digits_def)

lemma accepts_suffix:
  "accepts (r @ s) k \<Longrightarrow> \<exists>k1 k2. k = k1 @ k2 \<and> accepts s k2"
proof (induction r k rule: accepts.induct)
  case (1 k)
  then show ?case by (intro exI [of _ "[]"] exI [of _ k]) simp
next
  case (3 a r x k)
  then obtain k1 k2 where "k = k1 @ k2" "accepts s k2" by auto
  then show ?case by (intro exI [of _ "x # k1"] exI [of _ k2]) simp
next
  case (5 a r x k)
  then obtain k1 k2 where "k = k1 @ k2" "accepts s k2" by auto
  then show ?case by (intro exI [of _ "x # k1"] exI [of _ k2]) simp
qed simp_all

lemma key_pattern_match:
  "accepts (key_pattern key) m \<Longrightarrow> \<exists>k1 ds. digits ds \<and> m = k1 @ ''-'' @ ds"
proof -
  assume "accepts (key_pattern key) m"
  then have "accepts (key_items (pattern_part key) @
      [One (Lit (CHR ''-'')), Plus (Bracket range_0_9)]) m"
    by (simp add: key_pattern_def)
  from accepts_suffix [OF this] show ?thesis
    unfolding accepts_dash_digits by blast
qed

lemma plus_not_plain: "CHR ''+'' \<notin> set plain_chars"
  by (simp add: plain_chars_def)

lemma plain_key_items:
  "list_all (\<lambda>c. c \<in> set plain_chars) p \<Longrightarrow> key_items p = map (\<lambda>c. One (Lit c)) p"
proof (induction p)
  case Nil
  show ?case by simp
next
  case (Cons c cs)
  then show ?case
    using plus_not_plain by (cases cs) auto
qed

lemma plain_ere_units: "list_all (\<lambda>c. c \<in> set plain_chars) p \<Longrightarrow> ere_units p"
proof (induction p)
  case Nil
  show ?case by simp
next
  case (Cons c cs)
  then show ?case
    using plus_not_plain by (cases cs) auto
qed

lemma plain_pattern_part: "ere_plain p \<Longrightarrow> pattern_part p = p"
  by (cases p) (auto simp: ere_plain_def pattern_part_def)

lemma ere_plain_modelled: "ere_plain p \<Longrightarrow> ere_modelled p"
  using plain_pattern_part [of p] plain_ere_units [of p]
  by (simp add: ere_modelled_def ere_plain_def)

lemma key_pattern_plain:
  "ere_plain p \<Longrightarrow>
   key_pattern p = map (\<lambda>c. One (Lit c)) p @ [One (Lit (CHR ''-'')), Plus (Bracket range_0_9)]"
  using plain_pattern_part [of p] plain_key_items [of p]
  by (simp add: key_pattern_def ere_plain_def)

lemma accepts_key_pattern: "ere_plain p \<Longrightarrow> accepts (key_pattern p) = key_token p"
proof
  fix k
  assume "ere_plain p"
  then have "accepts (key_pattern p) k =
      accepts (map (\<lambda>c. One (Lit c)) p @ [One (Lit (CHR ''-'')), Plus (Bracket range_0_9)]) k"
    by (simp add: key_pattern_plain)
  also have "\<dots> = key_token p k"
    unfolding accepts_literals accepts_dash_digits key_token_iff by auto
  finally show "accepts (key_pattern p) k = key_token p k" .
qed

lemma dash_not_upper: "list_all (\<lambda>c. c \<in> set range_A_Z) us \<Longrightarrow> CHR ''-'' \<notin> set us"
  by (induction us) (auto simp: range_A_Z_def)

lemma takeWhile_uppers:
  "list_all (\<lambda>c. c \<in> set range_A_Z) us \<Longrightarrow> takeWhile (\<lambda>c. c \<noteq> CHR ''-'') (us @ CHR ''-'' # r) = us"
  by (induction us) (auto simp: range_A_Z_def)

lemma any_key_token_iff:
  "any_key_token k \<longleftrightarrow> (\<exists>us ds. uppers us \<and> digits ds \<and> k = us @ ''-'' @ ds)"
proof
  assume "any_key_token k"
  then show "\<exists>us ds. uppers us \<and> digits ds \<and> k = us @ ''-'' @ ds"
    unfolding any_key_token_def Let_def key_token_iff by blast
next
  assume "\<exists>us ds. uppers us \<and> digits ds \<and> k = us @ ''-'' @ ds"
  then obtain us ds where us: "uppers us" and ds: "digits ds" and k: "k = us @ ''-'' @ ds"
    by blast
  from us have "takeWhile (\<lambda>c. c \<noteq> CHR ''-'') k = us"
    unfolding k uppers_def by (simp add: takeWhile_uppers)
  with us ds k show "any_key_token k"
    unfolding any_key_token_def Let_def key_token_iff by auto
qed

lemma accepts_any_key_pattern: "accepts any_key_pattern = any_key_token"
proof
  fix k
  have "accepts any_key_pattern k \<longleftrightarrow>
        (\<exists>us k'. k = us @ k' \<and> uppers us \<and> (\<exists>ds. digits ds \<and> k' = ''-'' @ ds))"
    unfolding any_key_pattern_def accepts_plus accepts_dash_digits uppers_def by auto
  also have "\<dots> \<longleftrightarrow> any_key_token k"
    unfolding any_key_token_iff by auto
  finally show "accepts any_key_pattern k = any_key_token k" .
qed

lemma NL_not_NUL: "NL \<noteq> NUL"
  by (simp add: NL_def NUL_def)

lemma cmd_subst_keep: "NUL \<notin> set s \<Longrightarrow> s = [] \<or> last s \<noteq> NL \<Longrightarrow> cmd_subst s = s"
proof -
  assume "NUL \<notin> set s"
  then have "filter (\<lambda>c. c \<noteq> NUL) s = s"
    by (induction s) auto
  moreover assume "s = [] \<or> last s \<noteq> NL"
  ultimately show ?thesis
    by (cases s rule: rev_cases) (auto simp: cmd_subst_def)
qed

lemma cmd_subst_snoc_NL: "cmd_subst (s @ [NL]) = cmd_subst s"
  by (simp add: cmd_subst_def NL_not_NUL)

lemma cmd_subst_filter: "cmd_subst (filter (\<lambda>c. c \<noteq> NUL) s) = cmd_subst s"
  by (simp add: cmd_subst_def)

lemma cmd_subst_empty_iff: "cmd_subst s = [] \<longleftrightarrow> set s \<subseteq> {NL, NUL}"
  by (auto simp: cmd_subst_def dropWhile_eq_Nil_conv)

lemma cmd_subst_append:
  "NUL \<notin> set a \<Longrightarrow> cmd_subst b \<noteq> [] \<Longrightarrow> cmd_subst (a @ b) = a @ cmd_subst b"
proof -
  assume "NUL \<notin> set a"
  then have "filter (\<lambda>c. c \<noteq> NUL) a = a"
    by (induction a) auto
  moreover assume "cmd_subst b \<noteq> []"
  ultimately show ?thesis
    by (auto simp: cmd_subst_def dropWhile_append)
qed

lemma control_not_listed:
  "NUL \<notin> set range_0_9" "NL \<notin> set range_0_9" "NUL \<notin> set range_A_Z" "NL \<notin> set range_A_Z"
  "NUL \<notin> set plain_chars" "NL \<notin> set plain_chars"
  by (simp_all add: range_0_9_def range_A_Z_def plain_chars_def NL_def NUL_def)

lemma digits_clean: "digits ds \<Longrightarrow> ds \<noteq> [] \<and> NUL \<notin> set ds \<and> NL \<notin> set ds"
  using control_not_listed by (auto simp: digits_def list_all_iff)

lemma uppers_clean: "uppers us \<Longrightarrow> NUL \<notin> set us \<and> NL \<notin> set us"
  using control_not_listed by (auto simp: uppers_def list_all_iff)

lemma plain_clean: "ere_plain p \<Longrightarrow> NUL \<notin> set p \<and> NL \<notin> set p"
  using control_not_listed by (auto simp: ere_plain_def list_all_iff)

lemma dash_clean: "CHR ''-'' \<noteq> NUL \<and> CHR ''-'' \<noteq> NL"
  by (simp add: NL_def NUL_def)

lemma key_token_clean:
  "ere_plain p \<Longrightarrow> key_token p k \<Longrightarrow> k \<noteq> [] \<and> NUL \<notin> set k \<and> NL \<notin> set k"
  using plain_clean [of p] dash_clean
  by (auto simp: key_token_iff dest: digits_clean)

lemma any_key_token_clean: "any_key_token k \<Longrightarrow> k \<noteq> [] \<and> NUL \<notin> set k \<and> NL \<notin> set k"
  using dash_clean
  by (auto simp: any_key_token_iff dest: digits_clean uppers_clean)

lemma key_pattern_match_end:
  "accepts (key_pattern key) m \<Longrightarrow> m \<noteq> [] \<and> last m \<noteq> NL \<and> last m \<noteq> NUL"
proof -
  assume "accepts (key_pattern key) m"
  from key_pattern_match [OF this] obtain k1 ds where ds: "digits ds" and m: "m = k1 @ ''-'' @ ds"
    by blast
  from digits_clean [OF ds] have "last ds \<noteq> NL \<and> last ds \<noteq> NUL"
    by (metis last_in_set)
  with ds m show ?thesis
    by (simp add: digits_def)
qed

lemma grep_oE_empty_iff:
  assumes "\<And>m. accepts re m \<Longrightarrow> m \<noteq> [] \<and> last m \<noteq> NL \<and> last m \<noteq> NUL"
  shows "grep_oE re s = [] \<longleftrightarrow> grep_o re s = []"
proof (cases "grep_o re s")
  case Nil
  then show ?thesis by (simp add: grep_oE_def cmd_subst_def)
next
  case (Cons m ms)
  then have "m \<in> set (grep_o re s)" by simp
  from grep_o_accepts [OF this] assms have "m \<noteq> []" "last m \<noteq> NL" "last m \<noteq> NUL" by auto
  then have "\<not> set m \<subseteq> {NL, NUL}"
    by (metis insertE last_in_set singletonD subsetD)
  with Cons show ?thesis
    by (auto simp: grep_oE_def cmd_subst_empty_iff)
qed


lemma grep_oE_single:
  "grep_o re s = [k] \<Longrightarrow> NUL \<notin> set k \<Longrightarrow> k \<noteq> [] \<Longrightarrow> last k \<noteq> NL \<Longrightarrow> grep_oE re s = k"
  using cmd_subst_snoc_NL [of k] by (simp add: grep_oE_def cmd_subst_keep)

lemma grep_oE_more:
  "grep_o re s = k # grep_o re t \<Longrightarrow> NUL \<notin> set k \<Longrightarrow> grep_oE re t \<noteq> [] \<Longrightarrow>
   grep_oE re s = k @ [NL] @ grep_oE re t"
  using cmd_subst_append [of "k @ [NL]" "unlines_sh (grep_o re t)"]
  by (simp add: grep_oE_def NL_not_NUL NL_not_NUL [symmetric])

lemma key_pattern_empty_iff:
  "grep_oE (key_pattern key) s = [] \<longleftrightarrow> grep_o (key_pattern key) s = []"
  by (rule grep_oE_empty_iff) (rule key_pattern_match_end)

section \<open>The two hooks\<close>

subsection \<open>Runs of curl\<close>

lemma run_curl_max_time:
  "max_time a = Some t \<Longrightarrow> \<exists>r. run_curl a sv = Some r \<and> seconds r \<le> t"
  by (cases sv) (auto simp: cut_at_def timed_out_def)

lemma run_curl_answer: "ends sv \<Longrightarrow> \<exists>r. run_curl a sv = Some r"
  by (cases sv) auto

subsection \<open>The paths through the scripts\<close>


lemma post_commit_hook_returns:
  "\<exists>out. post_commit_hook gr e g net = Some out \<and> exit_status out = 0 \<and> waited out \<le> 10"
proof -
  let ?args = "post_commit_args (API_BASE_URL e) (branch g)"
  have "max_time ?args = Some 10"
    by (simp add: post_commit_args_def)
  from run_curl_max_time [OF this] obtain r where
    "run_curl ?args (net ?args) = Some r" "seconds r \<le> 10"
    by blast
  then show ?thesis
    by (simp add: post_commit_hook_def Let_def)
qed

lemma git_hook_exit_status: "git_hook g net = Some out \<Longrightarrow> exit_status out = 0"
  by (auto simp: git_hook_def Let_def split: if_splits option.splits)


lemma git_hook_returns:
  assumes "ends (net (git_hook_args (branch g)))"
  shows "\<exists>out. git_hook g net = Some out \<and> exit_status out = 0"
proof -
  from run_curl_answer [OF assms] obtain r where
    "run_curl (git_hook_args (branch g)) (net (git_hook_args (branch g))) = Some r"
    by blast
  then show ?thesis
    by (simp add: git_hook_def Let_def)
qed

lemma git_hook_hangs:
  assumes "grep_oE any_key_pattern (branch g) \<noteq> []" and "\<not> ends (net (git_hook_args (branch g)))"
  shows "git_hook g net = None"
proof -
  from assms(2) have "run_curl (git_hook_args (branch g)) (net (git_hook_args (branch g))) = None"
    by (cases "net (git_hook_args (branch g))") (simp_all add: git_hook_args_def)
  with assms(1) show ?thesis
    by (simp add: git_hook_def Let_def)
qed

lemmas eval_grep = grep_oE_def key_pattern_def pattern_part_def any_key_pattern_def
  range_0_9_def range_A_Z_def cmd_subst_def NL_def NUL_def

lemmas eval_key = extract_commit_def ere_modelled_def ere_plain_def plain_chars_def
  PROJECT_KEY_def param_default_def




lemma post_commit_hook_requests:
  "post_commit_hook gr e g net = Some out \<Longrightarrow>
   requests out =
     (if branch g = ''HEAD'' \<or> merge_head g \<or> rebase_applying g \<or>
         extract_commit gr (PROJECT_KEY e) (branch g) = []
      then [] else [post_commit_args (API_BASE_URL e) (branch g)])"
  by (auto simp: post_commit_hook_def Let_def split: if_splits option.splits)

lemma git_hook_requests:
  "git_hook g net = Some out \<Longrightarrow>
   requests out =
     (if grep_oE any_key_pattern (branch g) = [] then [] else [git_hook_args (branch g)])"
  by (auto simp: git_hook_def Let_def split: if_splits option.splits)

lemma post_commit_hook_sends:
  assumes "branch g \<noteq> ''HEAD''" "\<not> merge_head g" "\<not> rebase_applying g"
    and "extract_commit gr (PROJECT_KEY e) (branch g) \<noteq> []"
  shows "\<exists>out. post_commit_hook gr e g net = Some out \<and>
           requests out = [post_commit_args (API_BASE_URL e) (branch g)]"
  using post_commit_hook_returns [of gr e g net] post_commit_hook_requests [of gr e g net] assms
  by auto

lemma git_hook_sends:
  assumes "grep_oE any_key_pattern (branch g) \<noteq> []" "ends (net (git_hook_args (branch g)))"
  shows "\<exists>out. git_hook g net = Some out \<and> requests out = [git_hook_args (branch g)]"
  using git_hook_returns [of net g] git_hook_requests [of g net] assms
  by auto

subsection \<open>What the post-commit hook reads from curl\<close>

lemma digit_char_range: "d < 10 \<Longrightarrow> digit_char d \<in> set range_0_9"
  unfolding digit_char_def by (rule nth_mem) (simp add: range_0_9_def)

lemma digit_of_digit_char: "d < 10 \<Longrightarrow> digit_of (digit_char d) = Some d"
proof -
  assume "d < 10"
  then have "d \<in> {0, 1, 2, 3, 4, 5, 6, 7, 8, 9}" by auto
  then show ?thesis
    by (auto simp: digit_of_def digit_char_def range_0_9_def)
qed

lemma show_nat_digits: "show_nat n \<noteq> [] \<and> list_all (\<lambda>c. c \<in> set range_0_9) (show_nat n)"
proof (induction n rule: show_nat.induct)
  case (1 n)
  show ?case
  proof (cases "n < 10")
    case True
    then show ?thesis
      by (simp add: show_nat.simps [of n] digit_char_range)
  next
    case False
    with 1 show ?thesis
      by (simp add: show_nat.simps [of n] digit_char_range)
  qed
qed

lemma parse_digits_append:
  "parse_digits acc (xs @ ys) =
   (case parse_digits acc xs of None \<Rightarrow> None | Some v \<Rightarrow> parse_digits v ys)"
  by (induction xs arbitrary: acc) (auto split: option.splits)

lemma parse_show_nat: "parse_digits 0 (show_nat n) = Some n"
proof (induction n rule: show_nat.induct)
  case (1 n)
  show ?case
  proof (cases "n < 10")
    case True
    then show ?thesis
      by (simp add: show_nat.simps [of n] digit_of_digit_char)
  next
    case False
    with 1 have "parse_digits 0 (show_nat (n div 10)) = Some (n div 10)" by simp
    with False show ?thesis
      by (simp add: show_nat.simps [of n] parse_digits_append digit_of_digit_char)
  qed
qed

lemma parse_leading_zeros: "parse_digits 0 (replicate k (CHR ''0'') @ s) = parse_digits 0 s"
  by (induction k) (auto simp: digit_of_def)

lemma test_eq_http_code_text: "test_eq (http_code_text n) m \<longleftrightarrow> n = m"
  using show_nat_digits [of n]
  by (simp add: test_eq_def http_code_text_def parse_leading_zeros parse_show_nat)

lemma http_code_text_line:
  "http_code_text n \<noteq> [] \<and> NL \<notin> set (http_code_text n) \<and> NUL \<notin> set (http_code_text n)"
proof -
  have "NL \<notin> set (show_nat n) \<and> NUL \<notin> set (show_nat n)"
    using show_nat_digits [of n] control_not_listed by (auto simp: list_all_iff)
  moreover have "NL \<noteq> CHR ''0'' \<and> NUL \<noteq> CHR ''0''"
    by (simp add: NL_def NUL_def)
  ultimately show ?thesis
    using show_nat_digits [of n] by (auto simp: http_code_text_def)
qed

lemma cmd_subst_line: "NL \<notin> set c \<Longrightarrow> NUL \<notin> set c \<Longrightarrow> cmd_subst c = c"
  by (rule cmd_subst_keep) (auto dest: last_in_set)

lemma tail_n1_last_line: "NL \<notin> set c \<Longrightarrow> NUL \<notin> set c \<Longrightarrow> tail_n1 (b @ NL # c) = c"
proof -
  assume c: "NL \<notin> set c" "NUL \<notin> set c"
  then have "takeWhile (\<lambda>x. x \<noteq> NL) (rev c @ NL # rev b) = rev c"
    by (subst takeWhile_append2) auto
  with c show ?thesis
    by (simp add: tail_n1_def cmd_subst_line)
qed

lemma head_n_minus1_body: "NL \<notin> set c \<Longrightarrow> head_n_minus1 (b @ NL # c) = cmd_subst b"
proof -
  assume "NL \<notin> set c"
  then have "dropWhile (\<lambda>x. x \<noteq> NL) (rev c @ NL # rev b) = NL # rev b"
    by (subst dropWhile_append2) auto
  then show ?thesis
    using cmd_subst_snoc_NL [of b] by (simp add: head_n_minus1_def)
qed

text \<open>What \<^verbatim>\<open>RESPONSE\<close> holds: the body without its NUL bytes, a newline, the status.\<close>

lemma response_with_code:
  "write_http_code a \<Longrightarrow>
   cmd_subst (curl_stdout a r) =
     filter (\<lambda>c. c \<noteq> NUL) (body r) @ NL # http_code_text (http_code r)"
proof -
  let ?code = "http_code_text (http_code r)"
  let ?b = "filter (\<lambda>c. c \<noteq> NUL) (body r)"
  assume "write_http_code a"
  then have out: "curl_stdout a r = body r @ NL # ?code"
    by (simp add: curl_stdout_def)
  have code: "?code \<noteq> []" "NL \<notin> set ?code" "NUL \<notin> set ?code"
    using http_code_text_line [of "http_code r"] by auto
  then have "filter (\<lambda>c. c \<noteq> NUL) ?code = ?code"
    by (auto simp: filter_id_conv)
  then have "cmd_subst (body r @ NL # ?code) = cmd_subst (?b @ NL # ?code)"
    by (simp add: cmd_subst_def NL_not_NUL)
  also have "\<dots> = ?b @ NL # ?code"
  proof (rule cmd_subst_keep)
    show "NUL \<notin> set (?b @ NL # ?code)"
      using code NL_not_NUL by auto
    have "last (?b @ NL # ?code) = last ?code"
      using code by simp
    with code show "?b @ NL # ?code = [] \<or> last (?b @ NL # ?code) \<noteq> NL"
      by (metis last_in_set)
  qed
  finally show ?thesis
    unfolding out .
qed

lemma post_commit_hook_report:
  assumes "post_commit_hook gr e g net = Some out" and "requests out \<noteq> []"
  shows "\<exists>r. run_curl (post_commit_args (API_BASE_URL e) (branch g))
              (net (post_commit_args (API_BASE_URL e) (branch g))) = Some r \<and>
           stdout out =
             (''Git Hook: Updating Jira card '' @ extract_commit gr (PROJECT_KEY e) (branch g) @
                '' for branch '' @ [SQ] @ branch g @ [SQ]) #
             (if http_code r = 200
              then [check_mark @ '' Successfully updated Jira card '' @
                      extract_commit gr (PROJECT_KEY e) (branch g)]
              else [ballot_x @ '' Failed to update Jira card '' @
                      extract_commit gr (PROJECT_KEY e) (branch g) @
                      '' (HTTP '' @ http_code_text (http_code r) @ '')'',
                    ''Response: '' @ cmd_subst (body r)])"
proof -
  let ?args = "post_commit_args (API_BASE_URL e) (branch g)"
  have w: "write_http_code ?args"
    by (simp add: post_commit_args_def)
  from assms obtain r where r: "run_curl ?args (net ?args) = Some r"
    by (auto simp: post_commit_hook_def Let_def split: if_splits option.splits)
  have line: "NL \<notin> set (http_code_text (http_code r))" "NUL \<notin> set (http_code_text (http_code r))"
    using http_code_text_line by blast+
  from assms r show ?thesis
    by (auto simp: post_commit_hook_def Let_def response_with_code [OF w]
        tail_n1_last_line [OF line] head_n_minus1_body [OF line(1)] test_eq_http_code_text
        cmd_subst_filter split: if_splits)
qed

lemma post_commit_hook_bounded:
  "\<exists>out. post_commit_hook gr e g net = Some out \<and> waited out \<le> 10 \<and>
     (\<forall>a\<in>set (requests out). connect_timeout a = Some 5 \<and> max_time a = Some 10)"
proof -
  from post_commit_hook_returns [of gr e g net] obtain out where
    out: "post_commit_hook gr e g net = Some out" "waited out \<le> 10"
    by blast
  from post_commit_hook_requests [OF out(1)]
  have "\<forall>a\<in>set (requests out). connect_timeout a = Some 5 \<and> max_time a = Some 10"
    by (simp add: post_commit_args_def)
  with out show ?thesis by blast
qed

subsection \<open>What the extraction returns\<close>

lemma extraction_none:
  assumes "accepts re = tok" and "\<And>k. tok k \<Longrightarrow> k \<noteq> [] \<and> NUL \<notin> set k \<and> NL \<notin> set k"
  shows "grep_oE re b = [] \<longleftrightarrow> \<not> holds_token tok b"
proof -
  have "m \<noteq> [] \<and> last m \<noteq> NL \<and> last m \<noteq> NUL" if "accepts re m" for m
    using that assms by (metis last_in_set)
  then have "grep_oE re b = [] \<longleftrightarrow> grep_o re b = []"
    by (rule grep_oE_empty_iff)
  then show ?thesis
    using assms(1) by (simp add: grep_o_empty_iff)
qed

lemma extraction_first:
  assumes acc: "accepts re = tok"
    and clean: "\<And>k. tok k \<Longrightarrow> k \<noteq> [] \<and> NUL \<notin> set k \<and> NL \<notin> set k"
    and first: "leftmost_longest tok pre k post"
  shows "grep_oE re (pre @ k @ post) =
         (if holds_token tok post then k @ [NL] @ grep_oE re post else k)"
proof -
  from first acc have split: "grep_o re (pre @ k @ post) = k # grep_o re post"
    by (intro grep_o_leftmost_longest) simp
  from first have "tok k"
    by (simp add: leftmost_longest_def)
  from clean [OF this] have k: "NUL \<notin> set k" "k \<noteq> []" "last k \<noteq> NL"
    by (auto dest: last_in_set)
  show ?thesis
  proof (cases "holds_token tok post")
    case True
    then have "grep_oE re post \<noteq> []"
      using extraction_none [OF acc clean] by simp
    from grep_oE_more [OF split k(1) this] True show ?thesis by simp
  next
    case False
    then have "grep_o re post = []"
      using acc by (simp add: grep_o_empty_iff)
    with split have "grep_o re (pre @ k @ post) = [k]" by simp
    from grep_oE_single [OF this k] False show ?thesis by simp
  qed
qed

lemma key_none:
  "ere_plain p \<Longrightarrow> grep_oE (key_pattern p) b = [] \<longleftrightarrow> \<not> holds_token (key_token p) b"
  by (rule extraction_none [OF accepts_key_pattern]) (auto dest: key_token_clean)

lemma any_key_none: "grep_oE any_key_pattern b = [] \<longleftrightarrow> \<not> holds_token any_key_token b"
  by (rule extraction_none [OF accepts_any_key_pattern]) (rule any_key_token_clean)

lemma key_first:
  "ere_plain p \<Longrightarrow> leftmost_longest (key_token p) pre k post \<Longrightarrow>
   grep_oE (key_pattern p) (pre @ k @ post) =
     (if holds_token (key_token p) post then k @ [NL] @ grep_oE (key_pattern p) post else k)"
  by (rule extraction_first [OF accepts_key_pattern]) (auto dest: key_token_clean)

lemma any_key_first:
  "leftmost_longest any_key_token pre k post \<Longrightarrow>
   grep_oE any_key_pattern (pre @ k @ post) =
     (if holds_token any_key_token post then k @ [NL] @ grep_oE any_key_pattern post else k)"
  by (rule extraction_first [OF accepts_any_key_pattern]) (auto dest: any_key_token_clean)

lemma extract_commit_modelled:
  "ere_modelled key \<Longrightarrow> extract_commit gr key b = grep_oE (key_pattern key) b"
  by (simp add: extract_commit_def)


lemmas eval_token = token_at_def holds_token_def leftmost_longest_def key_token_def
  any_key_token_def digits_def uppers_def lessThan_Suc

lemma token_at_key_iff:
  "token_at (key_token p) s i \<longleftrightarrow>
   (\<exists>d r. d \<in> set range_0_9 \<and> drop i s = p @ ''-'' @ d # r)"
proof
  assume "token_at (key_token p) s i"
  then obtain n where "key_token p (take (Suc n) (drop i s))"
    by (auto simp: token_at_def)
  then obtain ds where ds: "digits ds" and t: "take (Suc n) (drop i s) = p @ ''-'' @ ds"
    by (auto simp: key_token_iff)
  from ds obtain d ds' where d: "ds = d # ds'" "d \<in> set range_0_9"
    by (cases ds) (auto simp: digits_def)
  have "drop i s = take (Suc n) (drop i s) @ drop (Suc n) (drop i s)"
    by (rule append_take_drop_id [symmetric])
  with t d have "drop i s = p @ ''-'' @ d # (ds' @ drop (Suc n) (drop i s))"
    by (metis append.assoc append_Cons)
  with d show "\<exists>d r. d \<in> set range_0_9 \<and> drop i s = p @ ''-'' @ d # r"
    by blast
next
  assume "\<exists>d r. d \<in> set range_0_9 \<and> drop i s = p @ ''-'' @ d # r"
  then obtain d r where d: "d \<in> set range_0_9" and eq: "drop i s = p @ ''-'' @ d # r"
    by blast
  from eq have "length (drop i s) = length p + 2 + length r"
    by simp
  then have n: "Suc (length p) < length s - i"
    by simp
  from eq have "take (Suc (Suc (length p))) (drop i s) = p @ ''-'' @ [d]"
    by simp
  moreover from d have "key_token p (p @ ''-'' @ [d])"
    by (auto simp: key_token_iff digits_def)
  ultimately show "token_at (key_token p) s i"
    using n by (auto simp: token_at_def intro!: bexI [of _ "Suc (length p)"])
qed

lemma upper_not_dash: "c \<in> set range_A_Z \<Longrightarrow> c \<noteq> CHR ''-''"
  by (auto simp: range_A_Z_def)

lemma upper_not_digit: "c \<in> set range_A_Z \<Longrightarrow> c \<notin> set range_0_9"
  by (auto simp: range_A_Z_def range_0_9_def)

lemma no_key_before_dash:
  assumes up: "uppers (us @ p)" and us: "us \<noteq> []"
    and pre: "\<not> holds_token (key_token p) pre"
    and i: "i < length (pre @ us)"
  shows "\<not> token_at (key_token p) (pre @ us @ p @ ''-'' @ R) i"
proof
  let ?s = "pre @ us @ p @ ''-'' @ R"
  assume "token_at (key_token p) ?s i"
  then obtain d r where d: "d \<in> set range_0_9" and eq: "drop i ?s = p @ ''-'' @ d # r"
    by (auto simp: token_at_key_iff)
  have up_all: "\<And>c. c \<in> set (us @ p) \<Longrightarrow> c \<in> set range_A_Z"
    using up by (auto simp: uppers_def list_all_iff)
  have "drop i ?s ! length p = ?s ! (i + length p)"
    by (intro nth_drop) (use i in simp)
  with eq have dash: "?s ! (i + length p) = CHR ''-''"
    by (simp add: nth_append)
  have "drop i ?s ! Suc (length p) = ?s ! (i + Suc (length p))"
    by (intro nth_drop) (use i in simp)
  with eq have digit: "?s ! (i + Suc (length p)) = d"
    by (simp add: nth_append)
  show False
  proof (cases "length pre \<le> i + length p")
    case True
    with i have "?s ! (i + length p) = (us @ p) ! (i + length p - length pre)"
      and "i + length p - length pre < length (us @ p)"
      by (auto simp: nth_append)
    then have "?s ! (i + length p) \<in> set (us @ p)"
      by (metis nth_mem)
    with dash up_all upper_not_dash show False
      by blast
  next
    case False
    show False
    proof (cases "i + Suc (length p) = length pre")
      case True
      with us have "?s ! (i + Suc (length p)) = us ! 0"
        by (simp add: nth_append)
      with us have "?s ! (i + Suc (length p)) \<in> set (us @ p)"
        by simp
      with digit up_all upper_not_digit d show False
        by blast
    next
      case far: False
      with False have len: "length p + 2 \<le> length (drop i pre)" and "i < length pre"
        by auto
      have e1: "drop i ?s = drop i pre @ (us @ p @ ''-'' @ R)"
        using \<open>i < length pre\<close> by simp
      have "take (length p + 2) (drop i ?s) = p @ ''-'' @ [d]"
        unfolding eq by simp
      then have "take (length p + 2) (drop i pre @ (us @ p @ ''-'' @ R)) = p @ ''-'' @ [d]"
        unfolding e1 .
      with len have "take (length p + 2) (drop i pre) = p @ ''-'' @ [d]"
        by simp
      then have "drop i pre = p @ ''-'' @ d # drop (length p + 2) (drop i pre)"
        by (metis append_take_drop_id append.assoc append_Cons append_Nil)
      with d have "token_at (key_token p) pre i"
        unfolding token_at_key_iff by blast
      with \<open>i < length pre\<close> pre show False
        by (auto simp: holds_token_def)
    qed
  qed
qed

lemma key_holds:
  assumes "digits ds"
  shows "holds_token (key_token p) (a @ p @ ''-'' @ ds @ c)"
proof -
  from assms obtain d ds' where d: "ds = d # ds'" "d \<in> set range_0_9"
    by (cases ds) (auto simp: digits_def)
  then have "drop (length a) (a @ p @ ''-'' @ ds @ c) = p @ ''-'' @ d # (ds' @ c)"
    by simp
  with d have "token_at (key_token p) (a @ p @ ''-'' @ ds @ c) (length a)"
    unfolding token_at_key_iff by blast
  moreover from d have "length a < length (a @ p @ ''-'' @ ds @ c)"
    by simp
  ultimately show ?thesis
    unfolding holds_token_def by blast
qed

lemma key_not_longer:
  assumes "digits ds" and "post = [] \<or> hd post \<notin> set range_0_9" and "m < length post"
  shows "\<not> key_token p ((p @ ''-'' @ ds) @ take (Suc m) post)"
proof
  assume "key_token p ((p @ ''-'' @ ds) @ take (Suc m) post)"
  then obtain ds2 where "digits ds2" and "(p @ ''-'' @ ds) @ take (Suc m) post = p @ ''-'' @ ds2"
    by (auto simp: key_token_iff)
  then have all: "list_all (\<lambda>c. c \<in> set range_0_9) (ds @ take (Suc m) post)"
    by (auto simp: digits_def)
  from assms(3) obtain x xs where "post = x # xs"
    by (cases post) auto
  with all assms(2) show False
    by simp
qed

lemma key_token_nth:
  assumes "key_token p t"
  shows "length p < length t" and "t ! length p = CHR ''-''"
    and "\<And>j. j < length t \<Longrightarrow> t ! j \<in> set range_A_Z \<Longrightarrow> j < length p"
proof -
  from assms obtain ds where ds: "digits ds" and t: "t = p @ ''-'' @ ds"
    by (auto simp: key_token_iff)
  from t show "length p < length t" by simp
  from t show "t ! length p = CHR ''-''" by (simp add: nth_append)
  fix j assume j: "j < length t" and up: "t ! j \<in> set range_A_Z"
  show "j < length p"
  proof (rule ccontr)
    assume "\<not> j < length p"
    then have "j = length p \<or> (length p < j \<and> t ! j = ds ! (j - Suc (length p)))"
      using t by (cases "j = length p") (auto simp: nth_append nth_Cons')
    then show False
    proof
      assume "j = length p"
      with t up upper_not_dash show False
        by (auto simp: nth_append)
    next
      assume a: "length p < j \<and> t ! j = ds ! (j - Suc (length p))"
      with j t have "j - Suc (length p) < length ds" by auto
      then have "ds ! (j - Suc (length p)) \<in> set ds" by (rule nth_mem)
      with ds have "ds ! (j - Suc (length p)) \<in> set range_0_9"
        by (auto simp: digits_def list_all_iff)
      with a up upper_not_digit show False by auto
    qed
  qed
qed

lemma nth_middle:
  "length a \<le> j \<Longrightarrow> j < length a + length w \<Longrightarrow> (a @ w @ x) ! j = w ! (j - length a)"
proof -
  assume "length a \<le> j" and "j < length a + length w"
  then have "\<not> j < length a" and "j - length a < length w"
    by arith+
  then show ?thesis
    by (simp add: nth_append)
qed

lemma key_ends_before_run:
  assumes up: "uppers (us @ p)" and ne: "pre \<noteq> [] \<or> us \<noteq> []"
    and tok: "key_token p (take L (pre @ us @ p @ X))"
    and L: "L \<le> length (pre @ us @ p @ X)"
  shows "L \<le> length pre"
proof (rule ccontr)
  let ?s = "pre @ us @ p @ X"
  let ?t = "take L ?s"
  assume "\<not> L \<le> length pre"
  then have far: "length pre < L" by simp
  have up_all: "(us @ p) ! j \<in> set range_A_Z" if "j < length (us @ p)" for j
  proof -
    from that have "(us @ p) ! j \<in> set (us @ p)" by (rule nth_mem)
    with up show ?thesis
      by (simp add: uppers_def list_all_iff)
  qed
  from up have run: "0 < length (us @ p)"
    by (auto simp: uppers_def)
  from L have len: "length ?t = L" by simp
  have "?t ! length pre = ?s ! length pre"
    using far by (rule nth_take)
  also have "\<dots> = (us @ p) ! 0"
    using run by (simp add: nth_append)
  finally have "?t ! length pre \<in> set range_A_Z"
    using up_all [OF run] by simp
  moreover have "length pre < length ?t"
    unfolding len by (rule far)
  ultimately have short: "length pre < length p"
    using key_token_nth(3) [OF tok] by blast
  from key_token_nth(1) [OF tok] have pL: "length p < L"
    unfolding len .
  then have "?t ! length p = ?s ! length p" by (rule nth_take)
  also have "\<dots> = (us @ p) ! (length p - length pre)"
  proof -
    from ne have "0 < length pre + length us" by auto
    with short have "length p < length pre + length (us @ p)" by simp
    with short nth_middle [of pre "length p" "us @ p" X] show ?thesis by simp
  qed
  finally have eq: "?t ! length p = (us @ p) ! (length p - length pre)" .
  have "length p - length pre < length (us @ p)"
  proof -
    from ne have "0 < length pre \<or> 0 < length us" by auto
    with short have "length p - length pre < length us + length p" by arith
    then show ?thesis by simp
  qed
  from up_all [OF this] eq have "?t ! length p \<in> set range_A_Z"
    by simp
  with key_token_nth(2) [OF tok] upper_not_dash show False
    by auto
qed

lemma range_A_Z_plain: "set range_A_Z \<subseteq> set plain_chars"
  by (simp add: range_A_Z_def plain_chars_def)

lemma uppers_plain:
  assumes "list_all (\<lambda>c. c \<in> set range_A_Z) p" and "p \<noteq> []"
  shows "ere_plain p"
proof -
  from assms have "CHR ''-'' \<notin> set p"
    by (intro dash_not_upper)
  then have "take 1 p \<noteq> ''-''"
    by (cases p) auto
  moreover from assms range_A_Z_plain have "list_all (\<lambda>c. c \<in> set plain_chars) p"
    by (auto simp: list_all_iff)
  ultimately show ?thesis
    using assms(2) by (simp add: ere_plain_def)
qed

lemma key_of_run_extracted:
  assumes up: "uppers (us @ p)" and us: "us \<noteq> []" and p: "p \<noteq> []" and ds: "digits ds"
    and post: "post = [] \<or> hd post \<notin> set range_0_9"
  shows "p @ ''-'' @ ds \<in> set (grep_o (key_pattern p) (pre @ us @ p @ ''-'' @ ds @ post))"
proof (induction "length pre" arbitrary: pre rule: less_induct)
  case less
  from up p have plain: "ere_plain p"
    by (intro uppers_plain) (simp_all add: uppers_def)
  let ?rest = "us @ p @ ''-'' @ ds @ post"
  show ?case
  proof (cases pre)
    case Nil
    have "leftmost_longest (key_token p) us (p @ ''-'' @ ds) post"
      unfolding leftmost_longest_def
    proof (intro conjI ballI)
      show "p @ ''-'' @ ds \<noteq> []" by simp
      show "key_token p (p @ ''-'' @ ds)"
        using ds by (auto simp: key_token_iff)
    next
      fix i assume "i \<in> {..<length us}"
      then have "i < length ([] @ us)" by simp
      from no_key_before_dash [OF up us _ this, of "ds @ post"]
      show "\<not> token_at (key_token p) (us @ (p @ ''-'' @ ds) @ post) i"
        by (simp add: holds_token_Nil)
    next
      fix m assume "m \<in> {..<length post}"
      then have "m < length post" by simp
      from key_not_longer [OF ds post this]
      show "\<not> key_token p ((p @ ''-'' @ ds) @ take (Suc m) post)" .
    qed
    then have "grep_o (key_pattern p) (us @ (p @ ''-'' @ ds) @ post) =
        (p @ ''-'' @ ds) # grep_o (key_pattern p) post"
      using plain by (intro grep_o_leftmost_longest) (simp add: accepts_key_pattern)
    with Nil show ?thesis by simp
  next
    case (Cons x pre')
    show ?thesis
    proof (cases "\<exists>n. match_here (key_pattern p) (pre @ ?rest) = Some (Suc n)")
      case False
      then have "\<not> token_at (accepts (key_pattern p)) (x # pre' @ ?rest) 0"
        using Cons by (simp add: token_at_accepts)
      then have "grep_o (key_pattern p) (x # pre' @ ?rest) = grep_o (key_pattern p) (pre' @ ?rest)"
        by (rule grep_o_Cons_skip)
      with less [of pre'] Cons show ?thesis by simp
    next
      case True
      then obtain n where n: "match_here (key_pattern p) (x # pre' @ ?rest) = Some (Suc n)"
        using Cons by auto
      from match_here_sound [OF n] have le: "Suc n \<le> length (pre @ us @ p @ ''-'' @ ds @ post)"
        and "key_token p (take (Suc n) (pre @ us @ p @ ''-'' @ ds @ post))"
        using Cons plain by (simp_all add: accepts_key_pattern)
      from key_ends_before_run [OF up _ this(2) le] have "n \<le> length pre'"
        using Cons by simp
      then have drop: "drop n (pre' @ ?rest) = drop n pre' @ ?rest"
        by simp
      from grep_o_Cons_match [OF n] drop
      have "grep_o (key_pattern p) (pre @ ?rest) =
          (x # take n (pre' @ ?rest)) # grep_o (key_pattern p) (drop n pre' @ ?rest)"
        using Cons by simp
      moreover have "p @ ''-'' @ ds \<in> set (grep_o (key_pattern p) (drop n pre' @ ?rest))"
        using less [of "drop n pre'"] Cons by simp
      ultimately show ?thesis by simp
    qed
  qed
qed

subsection \<open>The request body as its receiver reads it\<close>

lemma read_chars_plain:
  "DQ \<notin> set v \<Longrightarrow> BS \<notin> set v \<Longrightarrow> read_chars (v @ DQ # r) = Some (v, r)"
  by (induction v) auto

lemma read_string_dq:
  "DQ \<notin> set v \<Longrightarrow> BS \<notin> set v \<Longrightarrow> read_string (dq v @ r) = Some (v, r)"
  by (simp add: read_string_def skip_ws_def dq_def read_chars_plain) (simp add: DQ_def)

lemma read_string_space: "read_string (CHR '' '' # s) = read_string s"
  by (simp add: read_string_def skip_ws_def)

lemma expect_here:
  "expect (CHR ''{'') (CHR ''{'' # s) = Some s" "expect (CHR '':'') (CHR '':'' # s) = Some s"
  "expect (CHR '','') (CHR '','' # s) = Some s" "expect (CHR ''}'') (CHR ''}'' # s) = Some s"
  by (simp_all add: expect_def skip_ws_def)

text \<open>
  A branch name without quotation mark and backslash arrives as the value of
  \<^verbatim>\<open>branch_name\<close>, next to the action.
\<close>

lemma payload_read_back:
  assumes "DQ \<notin> set b" "BS \<notin> set b" "DQ \<notin> set a" "BS \<notin> set a"
  shows "read_two_fields (payload b a) = Some ((''branch_name'', b), (''git_action'', a))"
proof -
  have names: "DQ \<notin> set ''branch_name''" "BS \<notin> set ''branch_name''"
    "DQ \<notin> set ''git_action''" "BS \<notin> set ''git_action''"
    by (simp_all add: DQ_def BS_def)
  have none: "skip_ws [] = []"
    by (simp add: skip_ws_def)
  have last: "read_string (dq a @ ''}'') = Some (a, ''}'')"
    using assms by (intro read_string_dq)
  show ?thesis
    by (simp add: read_two_fields_def payload_def expect_here read_string_space
        read_string_dq [OF names(1,2)] read_string_dq [OF names(3,4)]
        read_string_dq [OF assms(1,2)] last none)
qed

lemma request_text:
  "(post_commit_hook gr e g net = Some out \<and> requests out \<noteq> [] \<longrightarrow>
      (\<exists>a. requests out = [a] \<and> request a = ''POST'' \<and>
           url a = API_BASE_URL e @ ''/git-hooks/update-from-branch'' \<and>
           headers a = [''Content-Type: application/json''] \<and>
           data a = payload (branch g) ''commit'')) \<and>
   (git_hook g net = Some out' \<and> requests out' \<noteq> [] \<longrightarrow>
      (\<exists>a. requests out' = [a] \<and> request a = ''POST'' \<and>
           url a = ''http://localhost:8000/api/v1'' @ ''/git-hooks/update-from-branch'' \<and>
           headers a = [''Content-Type: application/json''] \<and>
           data a = payload (branch g) ''push''))"
proof (intro conjI impI)
  assume "post_commit_hook gr e g net = Some out \<and> requests out \<noteq> []"
  with post_commit_hook_requests [of gr e g net out]
  have "requests out = [post_commit_args (API_BASE_URL e) (branch g)]"
    by (simp split: if_splits)
  then show "\<exists>a. requests out = [a] \<and> request a = ''POST'' \<and>
           url a = API_BASE_URL e @ ''/git-hooks/update-from-branch'' \<and>
           headers a = [''Content-Type: application/json''] \<and>
           data a = payload (branch g) ''commit''"
    by (simp add: post_commit_args_def)
next
  assume "git_hook g net = Some out' \<and> requests out' \<noteq> []"
  with git_hook_requests [of g net out']
  have "requests out' = [git_hook_args (branch g)]"
    by (simp split: if_splits)
  then show "\<exists>a. requests out' = [a] \<and> request a = ''POST'' \<and>
           url a = ''http://localhost:8000/api/v1'' @ ''/git-hooks/update-from-branch'' \<and>
           headers a = [''Content-Type: application/json''] \<and>
           data a = payload (branch g) ''push''"
    by (simp add: git_hook_args_def git_hook_API_BASE_URL_def GIT_ACTION_def)
qed

subsection \<open>The exit status\<close>

text \<open>
  Every path of both scripts ends in \<^verbatim>\<open>exit 0\<close>. The post-commit hook always gets there;
  \<^verbatim>\<open>git-hook.sh\<close> gets there when the transfer comes to an end by itself.
\<close>

lemma hooks_exit_status:
  "(\<exists>out. post_commit_hook gr e g net = Some out \<and> exit_status out = 0) \<and>
   (\<forall>out. git_hook g net = Some out \<longrightarrow> exit_status out = 0) \<and>
   (ends (net (git_hook_args (branch g))) \<longrightarrow>
      (\<exists>out. git_hook g net = Some out \<and> exit_status out = 0))"
  using post_commit_hook_returns [of gr e g net] git_hook_exit_status [of g net]
    git_hook_returns [of net g]
  by blast

section \<open>The properties\<close>

text \<open>
  C1. For every branch, configuration and outcome of the delivery the relay ends, with
  exit status 0. The post-commit hook does (\<open>hooks_exit_status\<close>). \<^verbatim>\<open>git-hook.sh\<close> does
  not: its curl has no time limit, so with a server that takes the request and never
  answers, or that stops in the middle of its response, the hook never ends and there is
  no exit status at all. The post-commit hook ends the same run with status 0.
\<close>

theorem git_hook_no_exit_status:
  "map_option exit_status
     (git_hook \<lparr>branch = ''bugfix/SCRUM-123'', merge_head = False, rebase_applying = False\<rparr>
        (\<lambda>a. Silent)) = None \<and>
   map_option exit_status
     (git_hook \<lparr>branch = ''bugfix/SCRUM-123'', merge_head = False, rebase_applying = False\<rparr>
        (\<lambda>a. Stalls 200 ''{'')) = None \<and>
   map_option exit_status
     (post_commit_hook (\<lambda>arg line. line) Map.empty
        \<lparr>branch = ''bugfix/SCRUM-123'', merge_head = False, rebase_applying = False\<rparr>
        (\<lambda>a. Silent)) = Some 0 \<and>
   map_option exit_status
     (post_commit_hook (\<lambda>arg line. line) Map.empty
        \<lparr>branch = ''bugfix/SCRUM-123'', merge_head = False, rebase_applying = False\<rparr>
        (\<lambda>a. Stalls 200 ''{'')) = Some 0"
proof -
  have key: "grep_oE any_key_pattern ''bugfix/SCRUM-123'' = ''SCRUM-123''"
    "extract_commit (\<lambda>arg line. line) (PROJECT_KEY Map.empty) ''bugfix/SCRUM-123'' = ''SCRUM-123''"
    by (simp_all add: eval_grep eval_key)
  show ?thesis
    by (simp add: git_hook_def post_commit_hook_def Let_def key git_hook_args_def
        post_commit_args_def)
qed

text \<open>
  C2. On a detached head, during a merge or during a rebase no request is sent. The
  post-commit hook has this guard (\<open>post_commit_hook_skip\<close>). \<^verbatim>\<open>git-hook.sh\<close> has none:
  during a merge, on a branch that holds a key, it sends its request.
\<close>

theorem git_hook_sends_during_merge:
  "map_option requests
     (git_hook \<lparr>branch = ''feature/SCRUM-25'', merge_head = True, rebase_applying = False\<rparr>
        (\<lambda>a. Answers 0 200 [])) =
   Some [git_hook_args ''feature/SCRUM-25'']"
proof -
  have key: "grep_oE any_key_pattern ''feature/SCRUM-25'' = ''SCRUM-25''"
    by (simp add: eval_grep)
  show ?thesis
    by (simp add: git_hook_def Let_def key cut_at_def git_hook_args_def)
qed

text \<open>
  C3. Key extraction with a configured prefix \<open>p\<close> that grep reads letter by letter
  (\<open>ere_plain\<close>: not empty, no dash in front, only printable ASCII characters that are no
  operators of a regular expression) returns nothing exactly when the branch name holds
  no token \<open>p\<close>, dash, digits; where the leftmost, longest such token is the only one, it
  returns that token. The same holds of the pattern with any run of uppercase letters as
  the prefix. From \<^verbatim>\<open>feature/SCRUM-25-fix\<close> with the prefix \<^verbatim>\<open>SCRUM\<close> it returns \<^verbatim>\<open>SCRUM-25\<close>.
\<close>

theorem key_extraction:
  "(ere_plain p \<longrightarrow>
      extract_commit gr p b = grep_oE (key_pattern p) b \<and>
      (grep_oE (key_pattern p) b = [] \<longleftrightarrow> \<not> holds_token (key_token p) b) \<and>
      (leftmost_longest (key_token p) pre k post \<and> \<not> holds_token (key_token p) post \<longrightarrow>
         grep_oE (key_pattern p) (pre @ k @ post) = k)) \<and>
   (grep_oE any_key_pattern b = [] \<longleftrightarrow> \<not> holds_token any_key_token b) \<and>
   (leftmost_longest any_key_token pre k post \<and> \<not> holds_token any_key_token post \<longrightarrow>
      grep_oE any_key_pattern (pre @ k @ post) = k) \<and>
   grep_oE (key_pattern ''SCRUM'') ''feature/SCRUM-25-fix'' = ''SCRUM-25''"
proof -
  have "grep_oE (key_pattern ''SCRUM'') ''feature/SCRUM-25-fix'' = ''SCRUM-25''"
    by (simp add: eval_grep)
  then show ?thesis
    using key_none [of p b] any_key_none [of b]
      key_first [of p pre k post] any_key_first [of pre k post]
      extract_commit_modelled [OF ere_plain_modelled, of p gr b]
    by simp
qed

theorem key_extraction_witness:
  "ere_plain ''SCRUM'' \<and>
   \<not> holds_token (key_token ''SCRUM'') ''chore/cleanup'' \<and>
   extract_commit (\<lambda>arg line. line) ''SCRUM'' ''chore/cleanup'' = [] \<and>
   grep_oE (key_pattern ''SCRUM'') ''chore/cleanup'' = [] \<and>
   leftmost_longest (key_token ''SCRUM'') ''feature/'' ''SCRUM-25'' ''-fix'' \<and>
   \<not> holds_token (key_token ''SCRUM'') ''-fix'' \<and>
   grep_oE (key_pattern ''SCRUM'') (''feature/'' @ ''SCRUM-25'' @ ''-fix'') = ''SCRUM-25'' \<and>
   \<not> holds_token any_key_token ''chore/cleanup'' \<and>
   grep_oE any_key_pattern ''chore/cleanup'' = [] \<and>
   leftmost_longest any_key_token ''fix/'' ''AB-7'' ''_x'' \<and>
   \<not> holds_token any_key_token ''_x'' \<and>
   grep_oE any_key_pattern (''fix/'' @ ''AB-7'' @ ''_x'') = ''AB-7''"
proof -
  have h: "ere_plain ''SCRUM''"
    "\<not> holds_token (key_token ''SCRUM'') ''chore/cleanup''"
    "leftmost_longest (key_token ''SCRUM'') ''feature/'' ''SCRUM-25'' ''-fix''"
    "\<not> holds_token (key_token ''SCRUM'') ''-fix''"
    "\<not> holds_token any_key_token ''chore/cleanup''"
    "leftmost_longest any_key_token ''fix/'' ''AB-7'' ''_x''"
    "\<not> holds_token any_key_token ''_x''"
    by (simp_all add: eval_token range_0_9_def range_A_Z_def ere_plain_def plain_chars_def)
  from key_extraction [of "''SCRUM''" "\<lambda>arg line. line" "''chore/cleanup''" "''feature/''"
      "''SCRUM-25''" "''-fix''"]
    key_extraction [of "''SCRUM''" "\<lambda>arg line. line" "''chore/cleanup''" "''fix/''" "''AB-7''"
      "''_x''"] h
  show ?thesis by simp
qed

text \<open>
  Without the condition that the token is the only one the property fails: a branch name
  with two tokens yields both, on two lines, which is neither of them.

  Without the condition on the prefix it fails as well. The prefix \<^verbatim>\<open>SCRUM+\<close> is read as a
  pattern: the branch \<^verbatim>\<open>x/SCRUM+-7\<close> holds the token \<^verbatim>\<open>SCRUM+-7\<close> and nothing is extracted,
  the branch \<^verbatim>\<open>SCRUMM-7\<close> holds no such token and \<^verbatim>\<open>SCRUMM-7\<close> is extracted. The prefix \<^verbatim>\<open>-e\<close>
  is read as an option: the branch \<^verbatim>\<open>x-12\<close> holds no token \<^verbatim>\<open>-e-12\<close> and \<^verbatim>\<open>-12\<close> is
  extracted.
\<close>

theorem key_extraction_two_tokens_counterexample:
  "any_key_token ''XY-2'' \<and>
   grep_oE any_key_pattern (''ABC-1_'' @ ''XY-2'') = ''ABC-1'' @ [NL] @ ''XY-2'' \<and>
   grep_oE any_key_pattern (''ABC-1_'' @ ''XY-2'') \<noteq> ''XY-2'' \<and>
   grep_oE any_key_pattern (''ABC-1_'' @ ''XY-2'') \<noteq> ''ABC-1'' \<and>
   ere_modelled ''SCRUM+'' \<and> \<not> ere_plain ''SCRUM+'' \<and>
   key_token ''SCRUM+'' ''SCRUM+-7'' \<and>
   extract_commit (\<lambda>arg line. line) ''SCRUM+'' (''x/'' @ ''SCRUM+-7'') = [] \<and>
   \<not> holds_token (key_token ''SCRUM+'') ''SCRUMM-7'' \<and>
   extract_commit (\<lambda>arg line. line) ''SCRUM+'' ''SCRUMM-7'' = ''SCRUMM-7'' \<and>
   ere_modelled ''-e'' \<and> \<not> ere_plain ''-e'' \<and>
   \<not> holds_token (key_token ''-e'') ''x-12'' \<and>
   extract_commit (\<lambda>arg line. line) ''-e'' ''x-12'' = ''-12''"
  by (simp add: eval_grep eval_token eval_key)

text \<open>
  C4. Where several tokens match, extraction returns the leftmost (and longest at its
  place) as the first line of its result, followed on further lines by what it extracts
  from the rest of the branch name after that token; the result is the first match alone
  only when the rest holds no token. This is so for a configured prefix that grep reads
  letter by letter (\<open>ere_plain\<close>) and for the pattern with any run of uppercase letters.
\<close>

theorem first_match_then_rest:
  "(ere_plain p \<and> leftmost_longest (key_token p) pre k post \<longrightarrow>
      extract_commit gr p (pre @ k @ post) =
        (if holds_token (key_token p) post
         then k @ [NL] @ extract_commit gr p post else k)) \<and>
   (leftmost_longest any_key_token pre k post \<longrightarrow>
      grep_oE any_key_pattern (pre @ k @ post) =
        (if holds_token any_key_token post
         then k @ [NL] @ grep_oE any_key_pattern post else k))"
  using key_first [of p pre k post] any_key_first [of pre k post]
    extract_commit_modelled [OF ere_plain_modelled, of p gr]
  by simp

theorem first_match_then_rest_witness:
  "ere_plain ''SCRUM'' \<and>
   leftmost_longest (key_token ''SCRUM'') ''fix/'' ''SCRUM-1'' ''-SCRUM-22'' \<and>
   holds_token (key_token ''SCRUM'') ''-SCRUM-22'' \<and>
   extract_commit (\<lambda>arg line. line) ''SCRUM'' (''fix/'' @ ''SCRUM-1'' @ ''-SCRUM-22'') =
     ''SCRUM-1'' @ [NL] @ ''SCRUM-22'' \<and>
   leftmost_longest any_key_token ''fix/'' ''AB-1'' ''/C-2'' \<and>
   holds_token any_key_token ''/C-2'' \<and>
   grep_oE any_key_pattern (''fix/'' @ ''AB-1'' @ ''/C-2'') = ''AB-1'' @ [NL] @ ''C-2''"
proof -
  have h: "ere_plain ''SCRUM''"
    "leftmost_longest (key_token ''SCRUM'') ''fix/'' ''SCRUM-1'' ''-SCRUM-22''"
    "holds_token (key_token ''SCRUM'') ''-SCRUM-22''"
    "leftmost_longest any_key_token ''fix/'' ''AB-1'' ''/C-2''"
    "holds_token any_key_token ''/C-2''"
    by (simp_all add: eval_token range_0_9_def range_A_Z_def ere_plain_def plain_chars_def)
  have rest: "extract_commit (\<lambda>arg line. line) ''SCRUM'' ''-SCRUM-22'' = ''SCRUM-22''"
    "grep_oE any_key_pattern ''/C-2'' = ''C-2''"
    by (simp_all add: eval_grep eval_key)
  from first_match_then_rest [of "''SCRUM''" "''fix/''" "''SCRUM-1''" "''-SCRUM-22''"
      "\<lambda>arg line. line"]
    first_match_then_rest [of "''SCRUM''" "''fix/''" "''AB-1''" "''/C-2''" "\<lambda>arg line. line"]
    h rest
  show ?thesis by simp
qed

text \<open>
  With two tokens in the branch name the result is not the first match alone. And with
  a prefix that grep reads as a pattern the first line is not the leftmost token: under
  the prefix \<^verbatim>\<open>SCRUM+\<close> the branch \<^verbatim>\<open>SCRUM+-1/SCRUMM-2\<close> starts with the token \<^verbatim>\<open>SCRUM+-1\<close>,
  and what is extracted is \<^verbatim>\<open>SCRUMM-2\<close>.
\<close>

theorem first_match_only_counterexample:
  "grep_oE (key_pattern ''SCRUM'') ''SCRUM-1-SCRUM-2'' = ''SCRUM-1'' @ [NL] @ ''SCRUM-2'' \<and>
   grep_oE (key_pattern ''SCRUM'') ''SCRUM-1-SCRUM-2'' \<noteq> ''SCRUM-1'' \<and>
   grep_oE any_key_pattern ''AB-1/CD-2'' = ''AB-1'' @ [NL] @ ''CD-2'' \<and>
   ere_modelled ''SCRUM+'' \<and>
   leftmost_longest (key_token ''SCRUM+'') [] ''SCRUM+-1'' ''/SCRUMM-2'' \<and>
   extract_commit (\<lambda>arg line. line) ''SCRUM+'' ([] @ ''SCRUM+-1'' @ ''/SCRUMM-2'') = ''SCRUMM-2''"
  by (simp add: eval_grep eval_token eval_key)

text \<open>
  C5. Success is reported exactly when the response's status is 200, and a failure message
  gives the key, the status and the body. The post-commit hook does so
  (\<open>post_commit_hook_report\<close>). \<^verbatim>\<open>git-hook.sh\<close> tests curl's exit status instead, which is 0
  for any response: on a response with status 500 it prints the success message.
\<close>

theorem git_hook_reports_success_on_500:
  "map_option stdout
     (git_hook \<lparr>branch = ''feature/SCRUM-25'', merge_head = False, rebase_applying = False\<rparr>
        (\<lambda>a. Answers 0 500 ''Internal Server Error'')) =
   Some [YELLOW @ ''Git Hook: Updating Jira card for branch '' @ [SQ] @ ''feature/SCRUM-25'' @
           [SQ] @ NC,
         YELLOW @ ''Found Jira key: SCRUM-25'' @ NC,
         GREEN @ ''Successfully updated Jira card SCRUM-25'' @ NC,
         ''Response: Internal Server Error'']"
proof -
  have key: "grep_oE any_key_pattern ''feature/SCRUM-25'' = ''SCRUM-25''"
    by (simp add: eval_grep)
  have response: "cmd_subst ''Internal Server Error'' = ''Internal Server Error''"
    by (simp add: cmd_subst_def NL_def NUL_def)
  show ?thesis
    by (simp add: git_hook_def Let_def key response cut_at_def git_hook_args_def curl_stdout_def)
qed

text \<open>
  C6. The request is bounded by a connect timeout of 5 seconds and a total timeout of 10
  seconds. The post-commit hook passes both limits and never spends more than 10 seconds
  in curl (\<open>post_commit_hook_bounded\<close>). \<^verbatim>\<open>git-hook.sh\<close> passes no limit: it waits an hour
  for a server that takes an hour, and for ever for one that never answers.
\<close>

theorem git_hook_waits_without_limit:
  "git_hook \<lparr>branch = ''feature/SCRUM-25'', merge_head = False, rebase_applying = False\<rparr>
     (\<lambda>a. Silent) = None \<and>
   map_option waited
     (git_hook \<lparr>branch = ''feature/SCRUM-25'', merge_head = False, rebase_applying = False\<rparr>
        (\<lambda>a. Answers 3600 200 [])) = Some 3600 \<and>
   connect_timeout (git_hook_args ''feature/SCRUM-25'') = None \<and>
   max_time (git_hook_args ''feature/SCRUM-25'') = None"
proof -
  have key: "grep_oE any_key_pattern ''feature/SCRUM-25'' = ''SCRUM-25''"
    by (simp add: eval_grep)
  show ?thesis
    by (simp add: git_hook_def Let_def key cut_at_def git_hook_args_def)
qed



text \<open>
  C8. A request is a POST to the base URL followed by \<^verbatim>\<open>/git-hooks/update-from-branch\<close>
  whose body carries exactly the two fields \<^verbatim>\<open>branch_name\<close> (the current branch) and
  \<^verbatim>\<open>git_action\<close>. Both scripts write the branch name into the body as it stands
  (\<open>request_text\<close>), which its receiver reads back when the name holds no quotation mark
  (\<open>payload_read_back\<close>). They escape nothing: on the branch \<^verbatim>\<open>fix/SCRUM-3"x\<close> the body
  that each of them sends is no object of two fields, so it carries no branch name. And
  \<^verbatim>\<open>git-hook.sh\<close> names the action \<^verbatim>\<open>push\<close> wherever it is run from.
\<close>

theorem request_body_unescaped:
  "map_option (\<lambda>out. map data (requests out))
     (post_commit_hook (\<lambda>arg line. line) Map.empty
        \<lparr>branch = ''fix/SCRUM-3'' @ [DQ] @ ''x'', merge_head = False, rebase_applying = False\<rparr>
        (\<lambda>a. Answers 0 200 [])) =
   Some [''{'' @ [DQ] @ ''branch_name'' @ [DQ] @ '': '' @ [DQ] @ ''fix/SCRUM-3'' @ [DQ] @ ''x'' @
         [DQ] @ '', '' @ [DQ] @ ''git_action'' @ [DQ] @ '': '' @ [DQ] @ ''commit'' @ [DQ] @ ''}''] \<and>
   map_option (\<lambda>out. map data (requests out))
     (git_hook
        \<lparr>branch = ''fix/SCRUM-3'' @ [DQ] @ ''x'', merge_head = False, rebase_applying = False\<rparr>
        (\<lambda>a. Answers 0 200 [])) =
   Some [''{'' @ [DQ] @ ''branch_name'' @ [DQ] @ '': '' @ [DQ] @ ''fix/SCRUM-3'' @ [DQ] @ ''x'' @
         [DQ] @ '', '' @ [DQ] @ ''git_action'' @ [DQ] @ '': '' @ [DQ] @ ''push'' @ [DQ] @ ''}''] \<and>
   read_two_fields
     (''{'' @ [DQ] @ ''branch_name'' @ [DQ] @ '': '' @ [DQ] @ ''fix/SCRUM-3'' @ [DQ] @ ''x'' @
      [DQ] @ '', '' @ [DQ] @ ''git_action'' @ [DQ] @ '': '' @ [DQ] @ ''commit'' @ [DQ] @ ''}'') =
   None \<and>
   read_two_fields
     (''{'' @ [DQ] @ ''branch_name'' @ [DQ] @ '': '' @ [DQ] @ ''fix/SCRUM-3'' @ [DQ] @ ''x'' @
      [DQ] @ '', '' @ [DQ] @ ''git_action'' @ [DQ] @ '': '' @ [DQ] @ ''push'' @ [DQ] @ ''}'') =
   None \<and>
   read_two_fields
     (''{'' @ [DQ] @ ''branch_name'' @ [DQ] @ '': '' @ [DQ] @ ''fix/SCRUM-3'' @
      [DQ] @ '', '' @ [DQ] @ ''git_action'' @ [DQ] @ '': '' @ [DQ] @ ''commit'' @ [DQ] @ ''}'') =
   Some ((''branch_name'', ''fix/SCRUM-3''), (''git_action'', ''commit''))"
proof -
  have key: "grep_oE any_key_pattern (''fix/SCRUM-3'' @ [DQ] @ ''x'') = ''SCRUM-3''"
    "extract_commit (\<lambda>arg line. line) (PROJECT_KEY Map.empty) (''fix/SCRUM-3'' @ [DQ] @ ''x'') =
       ''SCRUM-3''"
    by (simp_all add: eval_grep eval_key DQ_def)
  have sent: "map_option (\<lambda>out. map data (requests out))
     (post_commit_hook (\<lambda>arg line. line) Map.empty
        \<lparr>branch = ''fix/SCRUM-3'' @ [DQ] @ ''x'', merge_head = False, rebase_applying = False\<rparr>
        (\<lambda>a. Answers 0 200 [])) =
     Some [payload (''fix/SCRUM-3'' @ [DQ] @ ''x'') ''commit'']"
    "map_option (\<lambda>out. map data (requests out))
     (git_hook
        \<lparr>branch = ''fix/SCRUM-3'' @ [DQ] @ ''x'', merge_head = False, rebase_applying = False\<rparr>
        (\<lambda>a. Answers 0 200 [])) =
     Some [payload (''fix/SCRUM-3'' @ [DQ] @ ''x'') ''push'']"
    using key
    by (simp_all add: git_hook_def post_commit_hook_def Let_def cut_at_def
        git_hook_args_def post_commit_args_def GIT_ACTION_def DQ_def)
  have reads: "read_two_fields
     (''{'' @ [DQ] @ ''branch_name'' @ [DQ] @ '': '' @ [DQ] @ ''fix/SCRUM-3'' @ [DQ] @ ''x'' @
      [DQ] @ '', '' @ [DQ] @ ''git_action'' @ [DQ] @ '': '' @ [DQ] @ ''commit'' @ [DQ] @ ''}'') =
     None"
    "read_two_fields
     (''{'' @ [DQ] @ ''branch_name'' @ [DQ] @ '': '' @ [DQ] @ ''fix/SCRUM-3'' @ [DQ] @ ''x'' @
      [DQ] @ '', '' @ [DQ] @ ''git_action'' @ [DQ] @ '': '' @ [DQ] @ ''push'' @ [DQ] @ ''}'') =
     None"
    "read_two_fields
     (''{'' @ [DQ] @ ''branch_name'' @ [DQ] @ '': '' @ [DQ] @ ''fix/SCRUM-3'' @
      [DQ] @ '', '' @ [DQ] @ ''git_action'' @ [DQ] @ '': '' @ [DQ] @ ''commit'' @ [DQ] @ ''}'') =
     Some ((''branch_name'', ''fix/SCRUM-3''), (''git_action'', ''commit''))"
    by (simp_all add: read_two_fields_def expect_def read_string_def skip_ws_def DQ_def BS_def)
  from sent reads show ?thesis
    by (simp add: payload_def dq_def)
qed

text \<open>
  C9. An absent variable is no error, and the default applies: without \<^verbatim>\<open>SCRUM_API_URL\<close>
  the base URL is \<^verbatim>\<open>http://localhost:8000/api/v1\<close>; without \<^verbatim>\<open>SCRUM_PROJECT_KEY\<close> the
  prefix is \<^verbatim>\<open>SCRUM\<close>, so that the post-commit hook extracts a key exactly from the branch
  names that hold a token \<^verbatim>\<open>SCRUM\<close>, dash, digits. The pattern with any uppercase prefix
  is that of \<^verbatim>\<open>git-hook.sh\<close>, which reads no variable and always posts to the default URL.
\<close>

theorem env_defaults:
  "(e ''SCRUM_API_URL'' = None \<longrightarrow> API_BASE_URL e = ''http://localhost:8000/api/v1'') \<and>
   (e ''SCRUM_PROJECT_KEY'' = None \<longrightarrow>
      PROJECT_KEY e = ''SCRUM'' \<and>
      extract_commit gr (PROJECT_KEY e) b = grep_oE (key_pattern (PROJECT_KEY e)) b \<and>
      (grep_oE (key_pattern (PROJECT_KEY e)) b = [] \<longleftrightarrow> \<not> holds_token (key_token ''SCRUM'') b)) \<and>
   (\<exists>out. post_commit_hook gr e g net = Some out \<and> exit_status out = 0) \<and>
   url (git_hook_args b) = ''http://localhost:8000/api/v1/git-hooks/update-from-branch'' \<and>
   (grep_oE any_key_pattern b = [] \<longleftrightarrow> \<not> holds_token any_key_token b)"
proof -
  have plain: "ere_plain ''SCRUM''"
    by (simp add: ere_plain_def plain_chars_def)
  from key_none [OF plain, of b] extract_commit_modelled [OF ere_plain_modelled [OF plain], of gr b]
    post_commit_hook_returns [of gr e g net] any_key_none [of b]
  show ?thesis
    by (auto simp: API_BASE_URL_def PROJECT_KEY_def param_default_def git_hook_args_def
        git_hook_API_BASE_URL_def)
qed

theorem env_defaults_witness:
  "Map.empty ''SCRUM_API_URL'' = None \<and> Map.empty ''SCRUM_PROJECT_KEY'' = None \<and>
   API_BASE_URL Map.empty = ''http://localhost:8000/api/v1'' \<and>
   PROJECT_KEY Map.empty = ''SCRUM'' \<and>
   holds_token (key_token ''SCRUM'') ''fix/SCRUM-7'' \<and>
   grep_oE (key_pattern (PROJECT_KEY Map.empty)) ''fix/SCRUM-7'' \<noteq> [] \<and>
   \<not> holds_token (key_token ''SCRUM'') ''fix/ABC-7'' \<and>
   grep_oE (key_pattern (PROJECT_KEY Map.empty)) ''fix/ABC-7'' = []"
proof -
  have h: "holds_token (key_token ''SCRUM'') ''fix/SCRUM-7''"
    "\<not> holds_token (key_token ''SCRUM'') ''fix/ABC-7''"
    by (simp_all add: eval_token range_0_9_def)
  let ?g = "\<lparr>branch = ''fix/ABC-7'', merge_head = False, rebase_applying = False\<rparr>"
  let ?net = "\<lambda>a::curl_args. Silent"
  from env_defaults [of Map.empty "\<lambda>arg line. line" "''fix/SCRUM-7''" ?g ?net]
    env_defaults [of Map.empty "\<lambda>arg line. line" "''fix/ABC-7''" ?g ?net] h
  show ?thesis by (simp add: PROJECT_KEY_def param_default_def)
qed

text \<open>
  With the prefix variable unset the post-commit hook does not accept any uppercase
  prefix: the branch \<^verbatim>\<open>feature/ABC-12\<close> holds the key \<^verbatim>\<open>ABC-12\<close> and the hook finds none.
\<close>

theorem unset_prefix_is_SCRUM_counterexample:
  "Map.empty ''SCRUM_PROJECT_KEY'' = None \<and>
   any_key_token ''ABC-12'' \<and>
   grep_oE (key_pattern (PROJECT_KEY Map.empty)) (''feature/'' @ ''ABC-12'') = [] \<and>
   post_commit_hook (\<lambda>arg line. line) Map.empty
     \<lparr>branch = ''feature/'' @ ''ABC-12'', merge_head = False, rebase_applying = False\<rparr>
     (\<lambda>a. Answers 0 200 []) =
   Some \<lparr>exit_status = 0, stdout = [], requests = [], waited = 0\<rparr>"
  by (simp add: eval_grep eval_token eval_key post_commit_hook_def)

text \<open>
  C10. The configured prefix is matched anywhere, not as a whole word. Where the prefix
  \<open>p\<close> ends a longer run of uppercase letters \<open>us @ p\<close> that stands right before a dash and
  digits, extraction returns something; the key \<open>p\<close>, dash, digits is one of the matches it
  returns (the digits taken to their end); and it is the whole result when no other key
  lies before or after. From \<^verbatim>\<open>MYSCRUM-25\<close> with the prefix \<^verbatim>\<open>SCRUM\<close> it returns \<^verbatim>\<open>SCRUM-25\<close>.
\<close>

theorem prefix_unanchored:
  "p \<noteq> [] \<and> us \<noteq> [] \<and> uppers (us @ p) \<and> digits ds \<longrightarrow>
     extract_commit gr p (pre @ us @ p @ ''-'' @ ds @ post) =
       grep_oE (key_pattern p) (pre @ us @ p @ ''-'' @ ds @ post) \<and>
     grep_oE (key_pattern p) (pre @ us @ p @ ''-'' @ ds @ post) \<noteq> [] \<and>
     (post = [] \<or> hd post \<notin> set range_0_9 \<longrightarrow>
        p @ ''-'' @ ds \<in> set (grep_o (key_pattern p) (pre @ us @ p @ ''-'' @ ds @ post))) \<and>
     (\<not> holds_token (key_token p) pre \<and> \<not> holds_token (key_token p) post \<and>
      (post = [] \<or> hd post \<notin> set range_0_9) \<longrightarrow>
        grep_oE (key_pattern p) (pre @ us @ p @ ''-'' @ ds @ post) = p @ ''-'' @ ds)"
proof (intro impI conjI)
  assume h: "p \<noteq> [] \<and> us \<noteq> [] \<and> uppers (us @ p) \<and> digits ds"
  then have plain: "ere_plain p"
    by (intro uppers_plain) (simp_all add: uppers_def)
  from plain show "extract_commit gr p (pre @ us @ p @ ''-'' @ ds @ post) =
       grep_oE (key_pattern p) (pre @ us @ p @ ''-'' @ ds @ post)"
    by (simp add: extract_commit_modelled ere_plain_modelled)
  from key_holds [of ds p "pre @ us" post] h plain
  show "grep_oE (key_pattern p) (pre @ us @ p @ ''-'' @ ds @ post) \<noteq> []"
    by (simp add: key_none)
  {
    assume "post = [] \<or> hd post \<notin> set range_0_9"
    with h show "p @ ''-'' @ ds \<in> set (grep_o (key_pattern p) (pre @ us @ p @ ''-'' @ ds @ post))"
      by (intro key_of_run_extracted) simp_all
  }
  assume h2: "\<not> holds_token (key_token p) pre \<and> \<not> holds_token (key_token p) post \<and>
      (post = [] \<or> hd post \<notin> set range_0_9)"
  have "leftmost_longest (key_token p) (pre @ us) (p @ ''-'' @ ds) post"
    unfolding leftmost_longest_def
  proof (intro conjI ballI)
    show "p @ ''-'' @ ds \<noteq> []" by simp
    show "key_token p (p @ ''-'' @ ds)"
      using h by (auto simp: key_token_iff)
  next
    fix i assume "i \<in> {..<length (pre @ us)}"
    then have "i < length (pre @ us)" by simp
    from no_key_before_dash [OF _ _ _ this, of p "ds @ post"] h h2
    show "\<not> token_at (key_token p) ((pre @ us) @ (p @ ''-'' @ ds) @ post) i"
      by simp
  next
    fix m assume "m \<in> {..<length post}"
    then have "m < length post" by simp
    from key_not_longer [OF _ _ this, of ds p] h h2
    show "\<not> key_token p ((p @ ''-'' @ ds) @ take (Suc m) post)"
      by blast
  qed
  from key_first [OF plain this] h2
  show "grep_oE (key_pattern p) (pre @ us @ p @ ''-'' @ ds @ post) = p @ ''-'' @ ds"
    by simp
qed

theorem prefix_unanchored_witness:
  "''SCRUM'' \<noteq> [] \<and> ''MY'' \<noteq> [] \<and> uppers (''MY'' @ ''SCRUM'') \<and> digits ''25'' \<and>
   \<not> holds_token (key_token ''SCRUM'') ''fix/'' \<and> \<not> holds_token (key_token ''SCRUM'') ''-a'' \<and>
   hd ''-a'' \<notin> set range_0_9 \<and>
   extract_commit (\<lambda>arg line. line) ''SCRUM'' ''MYSCRUM-25'' = ''SCRUM-25'' \<and>
   extract_commit (\<lambda>arg line. line) ''SCRUM'' ''fix/MYSCRUM-25-a'' = ''SCRUM-25'' \<and>
   ''SCRUM-25'' \<in> set (grep_o (key_pattern ''SCRUM'') ''SCRUM-1/MYSCRUM-25-a'')"
proof -
  have h: "uppers (''MY'' @ ''SCRUM'')" "digits ''25''"
    "\<not> holds_token (key_token ''SCRUM'') []"
    "\<not> holds_token (key_token ''SCRUM'') ''fix/''" "\<not> holds_token (key_token ''SCRUM'') ''-a''"
    "hd ''-a'' \<notin> set range_0_9"
    by (simp_all add: eval_token range_0_9_def range_A_Z_def)
  from prefix_unanchored [of "''SCRUM''" "''MY''" "''25''" "\<lambda>arg line. line" "[]" "[]"]
    prefix_unanchored [of "''SCRUM''" "''MY''" "''25''" "\<lambda>arg line. line" "''fix/''" "''-a''"]
    prefix_unanchored [of "''SCRUM''" "''MY''" "''25''" "\<lambda>arg line. line" "''SCRUM-1/''" "''-a''"]
    h
  show ?thesis by simp
qed

text \<open>
  Where another key lies before, what is extracted is not the key of the run alone: from
  \<^verbatim>\<open>SCRUM-1/MYSCRUM-25-a\<close> with the prefix \<^verbatim>\<open>SCRUM\<close> it is the two lines \<^verbatim>\<open>SCRUM-1\<close> and
  \<^verbatim>\<open>SCRUM-25\<close>.
\<close>

theorem prefix_unanchored_other_key_counterexample:
  "''SCRUM'' \<noteq> [] \<and> ''MY'' \<noteq> [] \<and> uppers (''MY'' @ ''SCRUM'') \<and> digits ''25'' \<and>
   extract_commit (\<lambda>arg line. line) ''SCRUM''
     (''SCRUM-1/'' @ ''MY'' @ ''SCRUM'' @ ''-'' @ ''25'' @ ''-a'') =
     ''SCRUM-1'' @ [NL] @ ''SCRUM-25'' \<and>
   extract_commit (\<lambda>arg line. line) ''SCRUM''
     (''SCRUM-1/'' @ ''MY'' @ ''SCRUM'' @ ''-'' @ ''25'' @ ''-a'') \<noteq> ''SCRUM-25''"
  by (simp add: eval_grep eval_token eval_key)

end
